theory Spec2Isabelle
  imports Main "HOL-Library.Word"
begin

section \<open>The xdg-toplevel transaction instructions of src/view/xdg-shell/xdg-toplevel.hpp\<close>

text \<open>
  The header defines the class \<open>xdg_instruction_t\<close> and its five subclasses
  \<open>xdg_view_state_t\<close>, \<open>xdg_view_geometry_t\<close>, \<open>xdg_view_gravity_t\<close>,
  \<open>xdg_view_map_t\<close> and \<open>xdg_view_unmap_t\<close>. The embedding below keeps the
  instruction's members in a record, threads that record through every method, and writes
  every call that leaves the header (wlroots, the view, the surfaces, the signals) into a
  trace of events, in program order. Serials are \<open>uint32_t\<close>, so they are 32-bit words.
  A read through a null \<open>view->xdg_toplevel\<close> is the error value \<open>NullDeref\<close>.
\<close>

subsection \<open>Data\<close>

type_synonym u32 = "32 word"

datatype error = NullDeref

text \<open>\<open>wlr_box\<close> and \<open>wf::geometry_t\<close>: four C \<open>int\<close>s.\<close>

record wlr_box =
  box_x :: int
  box_y :: int
  box_w :: int
  box_h :: int

text \<open>What \<open>view->view_impl->frame->get_margins()\<close> returns.\<close>

record decoration_margins =
  m_left :: int
  m_right :: int
  m_top :: int
  m_bottom :: int

text \<open>
  \<open>view->view_impl->pending\<close> and \<open>view->view_impl->state\<close>. The gravity is the
  enumeration \<open>wf::gravity_t\<close>, kept as the integer the logging casts it to.
\<close>

record view_state =
  tiled_edges :: u32
  st_geometry :: wlr_box
  gravity :: int
  mapped :: bool

text \<open>
  The part of \<open>wlr_xdg_toplevel\<close> the header reads: \<open>base->configure_serial\<close>,
  \<open>server_pending.tiled\<close>, the box \<open>wlr_xdg_surface_get_geometry(base, _)\<close> fills in,
  \<open>base->surface\<close>, and the serial the next configure request of wlroots returns.
\<close>

record toplevel =
  configure_serial :: u32
  sp_tiled :: u32
  surface_geometry :: wlr_box
  base_surface :: nat
  scheduled_serial :: u32

text \<open>
  The part of \<open>wayfire_xdg_view\<close> the header reads and writes. \<open>surfaces\<close> is what
  \<open>wf::for_each_wlr_surface(view, _)\<close> enumerates now: each entry is a
  \<open>wlr_surface_base_t*\<close> together with the \<open>wlr_surface*\<close> that
  \<open>dynamic_cast<surface_interface_t*>(base)->get_wlr_surface()\<close> gives for it.
  \<open>pending_seq\<close> is the token \<open>wlr_surface_lock_pending\<close> returns for a surface.
\<close>

record view_t =
  xdg_toplevel :: "toplevel option"
  impl_frame :: "decoration_margins option"
  impl_pending :: view_state
  impl_state :: view_state
  surfaces :: "(nat \<times> nat) list"
  main_surface :: "nat option"
  view_size :: "int \<times> int"
  view_geometry :: wlr_box
  pending_seq :: "nat \<Rightarrow> u32"

text \<open>
  The calls that leave the header. \<open>Set_maximized e\<close> stands for
  \<open>wlr_xdg_toplevel_set_maximized(base, e == wf::TILED_EDGES_ALL)\<close>: the constant is not
  declared in the header, so the event keeps the edges it is compared with.
\<close>

datatype event =
    Take_ref
  | Unref
  | Connect_kill
  | Soft_lock nat
  | Soft_unlock nat
  | Hard_lock nat u32
  | Hard_unlock nat u32
  | Signal_final_size "int \<times> int"
  | Signal_ready
  | Signal_cancel
  | Set_maximized u32
  | Set_tiled u32
  | Set_size int int
  | Send_frame nat
  | Damage
  | Update_tiled_edges u32
  | Map_view "nat option"
  | Unmap_view

text \<open>
  The five subclasses with their own members: the desired edges; the target, the gravity
  captured by \<open>set_pending\<close> and the \<open>client_initiated\<close> flag; the gravity.
\<close>

datatype variant =
    State_t u32
  | Geometry_t wlr_box int bool
  | Gravity_t int
  | Map_t
  | Unmap_t

text \<open>
  \<open>xdg_instruction_t\<close>. \<open>on_commit\<close> is the listener: \<open>None\<close> when disconnected,
  \<open>Some serial\<close> when connected with the callback that captured \<open>serial\<close>. The two
  \<open>std::map\<close>s are association lists with ascending keys.
\<close>

record instr =
  view :: view_t
  on_commit :: "u32 option"
  held_locks :: "(nat \<times> u32) list"
  held_soft_locks :: "(nat \<times> bool) list"
  kind :: variant
  trace :: "event list"

subsection \<open>\<open>std::map\<close>\<close>

text \<open>\<open>m[k] = v\<close> on a map kept in ascending key order.\<close>

fun map_set :: "nat \<Rightarrow> 'v \<Rightarrow> (nat \<times> 'v) list \<Rightarrow> (nat \<times> 'v) list" where
  "map_set k v [] = [(k, v)]"
| "map_set k v ((k', v') # m) =
     (if k = k' then (k, v) # m
      else if k < k' then (k, v) # (k', v') # m
      else (k', v') # map_set k v m)"

text \<open>
  Reading \<open>m[k]\<close> of a \<open>std::map<_, bool>\<close>: a missing key is inserted with the value
  \<open>false\<close>.
\<close>

definition map_index :: "nat \<Rightarrow> (nat \<times> bool) list \<Rightarrow> bool \<times> (nat \<times> bool) list" where
  "map_index k m =
     (case map_of m k of
        Some v \<Rightarrow> (v, m)
      | None \<Rightarrow> (False, map_set k False m))"

subsection \<open>The acknowledgment test of \<open>check_ready\<close>\<close>

text \<open>\<open>MAX\<close> of \<open>check_ready\<close>: \<open>std::numeric_limits<uint32_t>::max()\<close>.\<close>

definition MAX_u32 :: u32 where
  "MAX_u32 = 0xFFFFFFFF"

text \<open>
  The value of \<open>target_achieved\<close> when \<open>check_ready\<close> tests it: the flag starts false,
  each of the two \<open>if\<close>s may set it, and \<open>&= current > 0\<close> comes last.
\<close>

definition target_achieved :: "u32 \<Rightarrow> u32 \<Rightarrow> bool" where
  "target_achieved current target =
     (let a0 = False;
          a1 = (if current \<ge> target \<and> current - target < MAX_u32 div 2 then True else a0);
          a2 = (if target > current \<and> target - current > MAX_u32 div 2 then True else a1)
      in a2 \<and> current > 0)"

subsection \<open>Geometry helpers declared outside the header\<close>

text \<open>
  Modelled from the spec: \<open>wf::expand_with_margins\<close>, \<open>wf::shrink_by_margins\<close> and
  \<open>wf::dimensions\<close> are called by the header and defined elsewhere in the repository.
  The spec has the configure size "shrunk" by the decoration margin and the final box
  "expanded by any decoration margin" ("margin re-added"): the box grows or shrinks by the
  margin on each side, and the dimensions of a box are its width and height.
\<close>

definition expand_with_margins :: "wlr_box \<Rightarrow> decoration_margins \<Rightarrow> wlr_box" where
  "expand_with_margins g m =
     \<lparr>box_x = box_x g - m_left m, box_y = box_y g - m_top m,
      box_w = box_w g + (m_left m + m_right m), box_h = box_h g + (m_top m + m_bottom m)\<rparr>"

definition shrink_by_margins :: "wlr_box \<Rightarrow> decoration_margins \<Rightarrow> wlr_box" where
  "shrink_by_margins g m =
     \<lparr>box_x = box_x g + m_left m, box_y = box_y g + m_top m,
      box_w = box_w g - (m_left m + m_right m), box_h = box_h g - (m_top m + m_bottom m)\<rparr>"

definition dimensions :: "wlr_box \<Rightarrow> int \<times> int" where
  "dimensions g = (box_w g, box_h g)"

text \<open>
  \<open>wf::align_with_gravity\<close> is defined elsewhere too, and the spec does not say what it
  computes: \<open>apply\<close> takes it as the parameter \<open>align\<close>.
\<close>

type_synonym align_fn = "wlr_box \<Rightarrow> wlr_box \<Rightarrow> int \<Rightarrow> wlr_box"

subsection \<open>\<open>xdg_instruction_t\<close>: the shared methods\<close>

definition log_event :: "event \<Rightarrow> instr \<Rightarrow> instr" where
  "log_event e s = s\<lparr>trace := trace s @ [e]\<rparr>"

text \<open>
  The five lines \<open>emit_final_size_and_ready\<close> and \<open>xdg_view_geometry_t::apply\<close> share:
  the surface geometry of the toplevel, expanded by the margins when the view has a frame.
\<close>

definition expanded_geometry :: "view_t \<Rightarrow> toplevel \<Rightarrow> wlr_box" where
  "expanded_geometry v tlv =
     (case impl_frame v of
        Some m \<Rightarrow> expand_with_margins (surface_geometry tlv) m
      | None \<Rightarrow> surface_geometry tlv)"

definition emit_final_size_and_ready :: "instr \<Rightarrow> error + instr" where
  "emit_final_size_and_ready s =
     (case xdg_toplevel (view s) of
        None \<Rightarrow> Inl NullDeref
      | Some tlv \<Rightarrow>
          Inr (log_event Signal_ready
                (log_event (Signal_final_size (dimensions (expanded_geometry (view s) tlv))) s)))"

fun lock_tree_each :: "nat list \<Rightarrow> instr \<Rightarrow> instr" where
  "lock_tree_each [] s = s"
| "lock_tree_each (b # bs) s =
     lock_tree_each bs
       (log_event (Soft_lock b) (s\<lparr>held_soft_locks := map_set b True (held_soft_locks s)\<rparr>))"

definition lock_tree :: "instr \<Rightarrow> instr" where
  "lock_tree s = lock_tree_each (map fst (surfaces (view s))) s"

fun unlock_tree_each :: "nat list \<Rightarrow> instr \<Rightarrow> instr" where
  "unlock_tree_each [] s = s"
| "unlock_tree_each (b # bs) s =
     (case map_index b (held_soft_locks s) of
        (held, m) \<Rightarrow>
          unlock_tree_each bs
            (if held
             then log_event (Soft_unlock b) (s\<lparr>held_soft_locks := map_set b False m\<rparr>)
             else s\<lparr>held_soft_locks := m\<rparr>))"

definition unlock_tree :: "instr \<Rightarrow> instr" where
  "unlock_tree s = unlock_tree_each (map fst (surfaces (view s))) s"

fun lock_tree_wlr_each :: "nat list \<Rightarrow> instr \<Rightarrow> instr" where
  "lock_tree_wlr_each [] s = s"
| "lock_tree_wlr_each (surf # ws) s =
     lock_tree_wlr_each ws
       (log_event (Hard_lock surf (pending_seq (view s) surf))
          (s\<lparr>held_locks := map_set surf (pending_seq (view s) surf) (held_locks s)\<rparr>))"

definition lock_tree_wlr :: "instr \<Rightarrow> instr" where
  "lock_tree_wlr s = lock_tree_wlr_each (map snd (surfaces (view s))) s"

definition unlock_tree_wlr :: "instr \<Rightarrow> instr" where
  "unlock_tree_wlr s =
     s\<lparr>trace := trace s @ map (\<lambda>(surf, lock_id). Hard_unlock surf lock_id) (held_locks s),
       held_locks := []\<rparr>"

definition check_ready :: "u32 \<Rightarrow> instr \<Rightarrow> error + (bool \<times> instr)" where
  "check_ready target s =
     (case xdg_toplevel (view s) of
        None \<Rightarrow> Inl NullDeref
      | Some tlv \<Rightarrow>
          if target_achieved (configure_serial tlv) target
          then (case emit_final_size_and_ready (lock_tree_wlr (s\<lparr>on_commit := None\<rparr>)) of
                  Inl e \<Rightarrow> Inl e
                | Inr s' \<Rightarrow> Inr (True, s'))
          else (case main_surface (view s) of
                  Some surf \<Rightarrow> Inr (False, log_event (Send_frame surf) s)
                | None \<Rightarrow> Inr (False, s)))"

text \<open>The \<open>on_kill\<close> connection, the constructor and the destructor.\<close>

definition on_kill :: "instr \<Rightarrow> instr" where
  "on_kill s = log_event Signal_cancel (s\<lparr>on_commit := None\<rparr>)"

definition xdg_instruction :: "view_t \<Rightarrow> variant \<Rightarrow> instr" where
  "xdg_instruction v k =
     \<lparr>view = v, on_commit = None, held_locks = [], held_soft_locks = [], kind = k,
      trace = [Take_ref, Connect_kill]\<rparr>"

definition destroy :: "instr \<Rightarrow> instr" where
  "destroy s = log_event Unref (unlock_tree_wlr s)"

subsection \<open>The five instructions\<close>

definition upd_pending :: "(view_state \<Rightarrow> view_state) \<Rightarrow> instr \<Rightarrow> instr" where
  "upd_pending f s = s\<lparr>view := (view s)\<lparr>impl_pending := f (impl_pending (view s))\<rparr>\<rparr>"

definition upd_state :: "(view_state \<Rightarrow> view_state) \<Rightarrow> instr \<Rightarrow> instr" where
  "upd_state f s = s\<lparr>view := (view s)\<lparr>impl_state := f (impl_state (view s))\<rparr>\<rparr>"

text \<open>
  The constructors. \<open>xdg_view_geometry_t\<close> locks the tree when the resize is client
  initiated; its \<open>current_gravity\<close> is not initialised, so the value it starts with is an
  argument. The other classes only run the base constructor.
\<close>

definition construct :: "view_t \<Rightarrow> variant \<Rightarrow> instr" where
  "construct v k =
     (case k of
        Geometry_t g current_gravity client_initiated \<Rightarrow>
          if client_initiated then lock_tree (xdg_instruction v k) else xdg_instruction v k
      | _ \<Rightarrow> xdg_instruction v k)"

text \<open>\<open>set_pending\<close> of each class. Logging is left out.\<close>

definition set_pending :: "instr \<Rightarrow> instr" where
  "set_pending s =
     (case kind s of
        State_t desired_edges \<Rightarrow> upd_pending (\<lambda>p. p\<lparr>tiled_edges := desired_edges\<rparr>) s
      | Geometry_t target current_gravity client_initiated \<Rightarrow>
          upd_pending (\<lambda>p. p\<lparr>st_geometry := target\<rparr>)
            (s\<lparr>kind := Geometry_t target (gravity (impl_pending (view s))) client_initiated\<rparr>)
      | Gravity_t g \<Rightarrow> upd_pending (\<lambda>p. p\<lparr>gravity := g\<rparr>) s
      | Map_t \<Rightarrow> upd_pending (\<lambda>p. p\<lparr>mapped := True\<rparr>) s
      | Unmap_t \<Rightarrow> lock_tree_wlr (upd_pending (\<lambda>p. p\<lparr>mapped := False\<rparr>) s))"

text \<open>
  \<open>on_commit.set_callback(...)\<close> with the captured serial, then \<open>on_commit.connect(...)\<close>.
\<close>

definition connect_on_commit :: "u32 \<Rightarrow> instr \<Rightarrow> instr" where
  "connect_on_commit serial s = s\<lparr>on_commit := Some serial\<rparr>"

definition xdg_view_state_commit :: "u32 \<Rightarrow> instr \<Rightarrow> error + instr" where
  "xdg_view_state_commit desired_edges s0 =
     (let s = lock_tree s0 in
      case xdg_toplevel (view s) of
        None \<Rightarrow> emit_final_size_and_ready s
      | Some tlv \<Rightarrow>
          if sp_tiled tlv = desired_edges then emit_final_size_and_ready s
          else Inr (connect_on_commit (scheduled_serial tlv)
                 (log_event (Send_frame (base_surface tlv))
                   (log_event (Set_tiled desired_edges)
                     (log_event (Set_maximized desired_edges) s)))))"

definition xdg_view_geometry_commit :: "wlr_box \<Rightarrow> bool \<Rightarrow> instr \<Rightarrow> error + instr" where
  "xdg_view_geometry_commit target client_initiated s0 =
     (let s = lock_tree s0 in
      case xdg_toplevel (view s) of
        None \<Rightarrow> emit_final_size_and_ready s
      | Some tlv \<Rightarrow>
          if client_initiated then emit_final_size_and_ready s
          else
            (let cfg_geometry =
                   (case impl_frame (view s) of
                      Some m \<Rightarrow> shrink_by_margins target m
                    | None \<Rightarrow> target)
             in Inr (connect_on_commit (scheduled_serial tlv)
                  (log_event (Send_frame (base_surface tlv))
                    (log_event (Set_size (box_w cfg_geometry) (box_h cfg_geometry)) s)))))"

definition commit :: "instr \<Rightarrow> error + instr" where
  "commit s =
     (case kind s of
        State_t desired_edges \<Rightarrow> xdg_view_state_commit desired_edges s
      | Geometry_t target current_gravity client_initiated \<Rightarrow>
          xdg_view_geometry_commit target client_initiated s
      | Gravity_t g \<Rightarrow> emit_final_size_and_ready s
      | Map_t \<Rightarrow> emit_final_size_and_ready (lock_tree s)
      | Unmap_t \<Rightarrow> Inr (log_event Signal_ready s))"

definition xdg_view_state_apply :: "u32 \<Rightarrow> instr \<Rightarrow> instr" where
  "xdg_view_state_apply desired_edges s0 =
     (let s = unlock_tree s0;
          old_edges = tiled_edges (impl_state (view s))
      in log_event (Update_tiled_edges old_edges)
           (upd_state (\<lambda>p. p\<lparr>tiled_edges := desired_edges\<rparr>) s))"

text \<open>
  \<open>a -= b\<close> on two C \<open>int\<close>s. The result is taken in 32-bit two's complement, as the
  machine computes it; where the mathematical difference does not fit, C++ leaves the
  behaviour undefined.
\<close>

definition c_int_sub :: "int \<Rightarrow> int \<Rightarrow> int" where
  "c_int_sub a b = sint (word_of_int a - word_of_int b :: 32 word)"

definition xdg_view_geometry_apply ::
    "align_fn \<Rightarrow> wlr_box \<Rightarrow> int \<Rightarrow> bool \<Rightarrow> instr \<Rightarrow> error + instr" where
  "xdg_view_geometry_apply align target current_gravity client_initiated s0 =
     (let s = unlock_tree (log_event Damage s0) in
      case xdg_toplevel (view s) of
        None \<Rightarrow> Inl NullDeref
      | Some tlv \<Rightarrow>
          (let box = expanded_geometry (view s) tlv;
               target1 = align target box current_gravity;
               s1 = upd_state (\<lambda>p. p\<lparr>st_geometry := target1\<rparr>) s;
               target2 = target1\<lparr>box_x := c_int_sub (box_x target1) (box_x box),
                                box_y := c_int_sub (box_y target1) (box_y box),
                                box_w := fst (view_size (view s1)),
                                box_h := snd (view_size (view s1))\<rparr>
           in Inr (log_event Damage
                (s1\<lparr>kind := Geometry_t target2 current_gravity client_initiated,
                    view := (view s1)\<lparr>view_geometry := target2\<rparr>\<rparr>))))"

definition apply_instr :: "align_fn \<Rightarrow> instr \<Rightarrow> error + instr" where
  "apply_instr align s =
     (case kind s of
        State_t desired_edges \<Rightarrow> Inr (xdg_view_state_apply desired_edges s)
      | Geometry_t target current_gravity client_initiated \<Rightarrow>
          xdg_view_geometry_apply align target current_gravity client_initiated s
      | Gravity_t g \<Rightarrow> Inr (upd_state (\<lambda>p. p\<lparr>gravity := g\<rparr>) s)
      | Map_t \<Rightarrow>
          (let s1 = unlock_tree (upd_state (\<lambda>p. p\<lparr>mapped := True\<rparr>) s)
           in Inr (log_event (Map_view (main_surface (view s1))) s1))
      | Unmap_t \<Rightarrow>
          Inr (log_event Unmap_view
                (unlock_tree_wlr (upd_state (\<lambda>p. p\<lparr>mapped := False\<rparr>) s))))"

subsection \<open>The surroundings: the client, the event loop and the scheduler\<close>

text \<open>
  The header is driven from outside. A client commit changes the acknowledged serial and
  the surface geometry of the toplevel, and then the event loop runs the \<open>on_commit\<close>
  callback if the listener is connected; the callback calls \<open>check_ready\<close> and drops its
  result. The scheduler calls \<open>set_pending\<close>, \<open>commit\<close> and \<open>apply\<close> (the spec's stage,
  request and finalize), the view emits the kill signal, and the instruction is destroyed.
  The protocol object can go away, and the surface tree can change.
\<close>

definition client_update :: "u32 \<Rightarrow> wlr_box \<Rightarrow> instr \<Rightarrow> instr" where
  "client_update serial g s =
     s\<lparr>view := (view s)\<lparr>xdg_toplevel :=
          map_option (\<lambda>tlv. tlv\<lparr>configure_serial := serial, surface_geometry := g\<rparr>)
            (xdg_toplevel (view s))\<rparr>\<rparr>"

definition surface_commit :: "instr \<Rightarrow> error + instr" where
  "surface_commit s =
     (case on_commit s of
        None \<Rightarrow> Inr s
      | Some serial \<Rightarrow>
          (case check_ready serial s of
             Inl e \<Rightarrow> Inl e
           | Inr (achieved, s') \<Rightarrow> Inr s'))"

datatype action =
    Stage
  | Request
  | Client_commit u32 wlr_box
  | Finalize
  | Kill
  | Destroy
  | Toplevel_destroyed
  | Surfaces_changed "(nat \<times> nat) list"

definition step :: "align_fn \<Rightarrow> action \<Rightarrow> instr \<Rightarrow> error + instr" where
  "step align a s =
     (case a of
        Stage \<Rightarrow> Inr (set_pending s)
      | Request \<Rightarrow> commit s
      | Client_commit serial g \<Rightarrow> surface_commit (client_update serial g s)
      | Finalize \<Rightarrow> apply_instr align s
      | Kill \<Rightarrow> Inr (on_kill s)
      | Destroy \<Rightarrow> Inr (destroy s)
      | Toplevel_destroyed \<Rightarrow> Inr (s\<lparr>view := (view s)\<lparr>xdg_toplevel := None\<rparr>\<rparr>)
      | Surfaces_changed ss \<Rightarrow> Inr (s\<lparr>view := (view s)\<lparr>surfaces := ss\<rparr>\<rparr>))"

fun run :: "align_fn \<Rightarrow> action list \<Rightarrow> instr \<Rightarrow> error + instr" where
  "run align [] s = Inr s"
| "run align (a # as) s =
     (case step align a s of
        Inl e \<Rightarrow> Inl e
      | Inr s' \<Rightarrow> run align as s')"

subsection \<open>Reading a trace\<close>

text \<open>
  How often the instruction has called \<open>base->lock()\<close> more than \<open>base->unlock()\<close> on a
  surface, and \<open>wlr_surface_lock_pending\<close> more than \<open>wlr_surface_unlock_cached\<close> for a
  surface and token.
\<close>

definition soft_outstanding :: "event list \<Rightarrow> nat \<Rightarrow> int" where
  "soft_outstanding tr b =
     int (count_list tr (Soft_lock b)) - int (count_list tr (Soft_unlock b))"

definition hard_outstanding :: "event list \<Rightarrow> nat \<Rightarrow> u32 \<Rightarrow> int" where
  "hard_outstanding tr surf tok =
     int (count_list tr (Hard_lock surf tok)) - int (count_list tr (Hard_unlock surf tok))"

text \<open>
  Modelled from the spec: the scheduler that calls the instruction is not in the header.
  The spec orders the phases \<open>stage\<close>, \<open>request\<close>, \<open>finalize\<close> strictly, each at most once,
  lets the destruction hook fire before \<open>finalize\<close> only and nothing of the instruction run
  after it, and lets the client commit and the surface tree change at any time. A tree
  never enumerates a surface twice.
\<close>

datatype phase = Created | Staged | Requested | Done

fun scheduled :: "phase \<Rightarrow> action list \<Rightarrow> bool" where
  "scheduled p [] = True"
| "scheduled p (Stage # as) = (p = Created \<and> scheduled Staged as)"
| "scheduled p (Request # as) = (p = Staged \<and> scheduled Requested as)"
| "scheduled p (Finalize # as) = (p = Requested \<and> scheduled Done as)"
| "scheduled p (Kill # as) = (p \<noteq> Done \<and> scheduled Done as)"
| "scheduled p (Destroy # as) = False"
| "scheduled p (Client_commit serial g # as) = scheduled p as"
| "scheduled p (Toplevel_destroyed # as) = scheduled p as"
| "scheduled p (Surfaces_changed ss # as) =
     (distinct (map fst ss) \<and> distinct (map snd ss) \<and> scheduled p as)"

definition distinct_surfaces :: "view_t \<Rightarrow> bool" where
  "distinct_surfaces v =
     (distinct (map fst (surfaces v)) \<and> distinct (map snd (surfaces v)))"

text \<open>The \<open>final-size\<close> and \<open>ready\<close> signals of a trace, in the order they were emitted.\<close>

fun is_ready_signal :: "event \<Rightarrow> bool" where
  "is_ready_signal (Signal_final_size d) = True"
| "is_ready_signal Signal_ready = True"
| "is_ready_signal e = False"

definition ready_signals :: "event list \<Rightarrow> event list" where
  "ready_signals tr = filter is_ready_signal tr"

subsection \<open>Invariants of a scheduled instruction\<close>

fun is_unmap :: "variant \<Rightarrow> bool" where
  "is_unmap Unmap_t = True"
| "is_unmap k = False"

fun client_initiated_resize :: "variant \<Rightarrow> bool" where
  "client_initiated_resize (Geometry_t target current_gravity client_initiated) = client_initiated"
| "client_initiated_resize k = False"

text \<open>What the scheduler allows in a phase, and the phase an action leads to.\<close>

fun allowed :: "phase \<Rightarrow> action \<Rightarrow> bool" where
  "allowed p Stage = (p = Created)"
| "allowed p Request = (p = Staged)"
| "allowed p Finalize = (p = Requested)"
| "allowed p Kill = (p \<noteq> Done)"
| "allowed p Destroy = False"
| "allowed p (Surfaces_changed ss) = (distinct (map fst ss) \<and> distinct (map snd ss))"
| "allowed p a = True"

fun next_phase :: "phase \<Rightarrow> action \<Rightarrow> phase" where
  "next_phase p Stage = Staged"
| "next_phase p Request = Requested"
| "next_phase p Finalize = Done"
| "next_phase p Kill = Done"
| "next_phase p a = p"

text \<open>
  While the listener is connected nothing has been signalled; before \<open>commit\<close> nothing has
  been signalled and the listener is not connected; an unmap instruction never connects
  it. The signals of a trace are none, or \<open>final-size\<close> followed by \<open>ready\<close>, or, for an
  unmap instruction, \<open>ready\<close> alone.
\<close>

definition signals_inv :: "phase \<Rightarrow> instr \<Rightarrow> bool" where
  "signals_inv p s \<longleftrightarrow>
     (on_commit s \<noteq> None \<longrightarrow> ready_signals (trace s) = [])
     \<and> (is_unmap (kind s) \<longrightarrow> on_commit s = None)
     \<and> (p = Created \<or> p = Staged \<longrightarrow> ready_signals (trace s) = [] \<and> on_commit s = None)
     \<and> (ready_signals (trace s) = []
        \<or> (if is_unmap (kind s) then ready_signals (trace s) = [Signal_ready]
            else \<exists>d. ready_signals (trace s) = [Signal_final_size d, Signal_ready]))"

text \<open>
  \<open>held_locks\<close> records exactly the hard locks that are outstanding; it is empty while
  the listener is connected, and before \<open>set_pending\<close>, and before \<open>commit\<close> unless the
  instruction unmaps.
\<close>

definition hard_inv :: "phase \<Rightarrow> instr \<Rightarrow> bool" where
  "hard_inv p s \<longleftrightarrow>
     (\<forall>surf tok. hard_outstanding (trace s) surf tok = int (count_list (held_locks s) (surf, tok)))
     \<and> (on_commit s \<noteq> None \<longrightarrow> held_locks s = [])
     \<and> (is_unmap (kind s) \<longrightarrow> on_commit s = None)
     \<and> (p = Created \<longrightarrow> held_locks s = [])
     \<and> (p = Created \<or> p = Staged \<longrightarrow> on_commit s = None \<and> (\<not> is_unmap (kind s) \<longrightarrow> held_locks s = []))
     \<and> distinct (map snd (surfaces (view s)))"

text \<open>The flags of \<open>held_soft_locks\<close> tell which surfaces have one \<open>lock()\<close> outstanding.\<close>

definition soft_inv :: "instr \<Rightarrow> bool" where
  "soft_inv s \<longleftrightarrow>
     (\<forall>b. soft_outstanding (trace s) b =
            (if map_of (held_soft_locks s) b = Some True then 1 else 0))"

text \<open>The classes whose \<open>apply\<close> calls \<open>unlock_tree\<close>.\<close>

fun unlocks_softly :: "variant \<Rightarrow> bool" where
  "unlocks_softly (State_t desired_edges) = True"
| "unlocks_softly (Geometry_t target current_gravity client_initiated) = True"
| "unlocks_softly Map_t = True"
| "unlocks_softly k = False"

text \<open>
  Which surfaces a scheduled run leaves soft-locked, read off the actions alone. \<open>u\<close> tells
  whether the class locks in \<open>commit\<close> and unlocks in \<open>apply\<close>. \<open>commit\<close> of such a class
  locks every surface of the tree as it is then; \<open>apply\<close> unlocks the locked surfaces that
  are in the tree as it is then; nothing else locks or unlocks.
\<close>

fun tree_after :: "(nat \<times> nat) list \<Rightarrow> action \<Rightarrow> (nat \<times> nat) list" where
  "tree_after tree (Surfaces_changed ss) = ss"
| "tree_after tree a = tree"

fun soft_locked_after :: "bool \<Rightarrow> (nat \<times> nat) list \<Rightarrow> nat list \<Rightarrow> action \<Rightarrow> nat list" where
  "soft_locked_after u tree locked Request = (if u then map fst tree @ locked else locked)"
| "soft_locked_after u tree locked Finalize =
     (if u then filter (\<lambda>b. b \<notin> fst ` set tree) locked else locked)"
| "soft_locked_after u tree locked a = locked"

fun soft_left :: "bool \<Rightarrow> (nat \<times> nat) list \<Rightarrow> nat list \<Rightarrow> action list \<Rightarrow> nat list" where
  "soft_left u tree locked [] = locked"
| "soft_left u tree locked (a # as) =
     soft_left u (tree_after tree a) (soft_locked_after u tree locked a) as"

text \<open>
  The flags of \<open>held_soft_locks\<close> are set for the surfaces of \<open>locked\<close>, which is empty
  before \<open>commit\<close>; the tree enumerates no surface twice.
\<close>

definition soft_state :: "phase \<Rightarrow> nat list \<Rightarrow> instr \<Rightarrow> bool" where
  "soft_state p locked s \<longleftrightarrow>
     soft_inv s
     \<and> distinct (map fst (surfaces (view s)))
     \<and> (\<forall>b. (map_of (held_soft_locks s) b = Some True) = (b \<in> set locked))
     \<and> (p = Created \<or> p = Staged \<longrightarrow> locked = [])"

subsection \<open>A concrete window\<close>

text \<open>
  A decorated window at geometry \<open>(0, 0, 800, 600)\<close> whose frame has a top margin of 30,
  with a main surface and one subsurface. \<open>keep_target\<close> stands in for
  \<open>wf::align_with_gravity\<close> where an example has to run \<open>apply\<close>.
\<close>

definition example_margins :: decoration_margins where
  "example_margins = \<lparr>m_left = 0, m_right = 0, m_top = 30, m_bottom = 0\<rparr>"

definition example_state :: view_state where
  "example_state =
     \<lparr>tiled_edges = 0,
      st_geometry = \<lparr>box_x = 0, box_y = 0, box_w = 800, box_h = 600\<rparr>,
      gravity = 0, mapped = True\<rparr>"

definition example_toplevel :: toplevel where
  "example_toplevel =
     \<lparr>configure_serial = 3, sp_tiled = 0,
      surface_geometry = \<lparr>box_x = 0, box_y = 30, box_w = 800, box_h = 570\<rparr>,
      base_surface = 11, scheduled_serial = 7\<rparr>"

definition example_view :: view_t where
  "example_view =
     \<lparr>xdg_toplevel = Some example_toplevel, impl_frame = Some example_margins,
      impl_pending = example_state, impl_state = example_state,
      surfaces = [(1, 11), (2, 12)], main_surface = Some 11,
      view_size = (800, 600),
      view_geometry = \<lparr>box_x = 0, box_y = 0, box_w = 800, box_h = 600\<rparr>,
      pending_seq = (\<lambda>surf. of_nat surf + 100)\<rparr>"

definition keep_target :: align_fn where
  "keep_target target box g = target"

section \<open>Properties\<close>

subsection \<open>What each method changes\<close>

lemma log_event_fields [simp]:
  "view (log_event e s) = view s"
  "on_commit (log_event e s) = on_commit s"
  "held_locks (log_event e s) = held_locks s"
  "held_soft_locks (log_event e s) = held_soft_locks s"
  "kind (log_event e s) = kind s"
  "trace (log_event e s) = trace s @ [e]"
  by (simp_all add: log_event_def)

lemma lock_tree_each_fields [simp]:
  "view (lock_tree_each bs s) = view s"
  "on_commit (lock_tree_each bs s) = on_commit s"
  "held_locks (lock_tree_each bs s) = held_locks s"
  "kind (lock_tree_each bs s) = kind s"
  "trace (lock_tree_each bs s) = trace s @ map Soft_lock bs"
  by (induction bs arbitrary: s; simp)+

lemma lock_tree_fields [simp]:
  "view (lock_tree s) = view s"
  "on_commit (lock_tree s) = on_commit s"
  "held_locks (lock_tree s) = held_locks s"
  "kind (lock_tree s) = kind s"
  "trace (lock_tree s) = trace s @ map Soft_lock (map fst (surfaces (view s)))"
  by (simp_all add: lock_tree_def)

lemma lock_tree_wlr_each_fields [simp]:
  "view (lock_tree_wlr_each ws s) = view s"
  "on_commit (lock_tree_wlr_each ws s) = on_commit s"
  "held_soft_locks (lock_tree_wlr_each ws s) = held_soft_locks s"
  "kind (lock_tree_wlr_each ws s) = kind s"
  "trace (lock_tree_wlr_each ws s) = trace s @ map (\<lambda>w. Hard_lock w (pending_seq (view s) w)) ws"
  by (induction ws arbitrary: s; simp)+

lemma lock_tree_wlr_fields [simp]:
  "view (lock_tree_wlr s) = view s"
  "on_commit (lock_tree_wlr s) = on_commit s"
  "held_soft_locks (lock_tree_wlr s) = held_soft_locks s"
  "kind (lock_tree_wlr s) = kind s"
  "trace (lock_tree_wlr s) =
     trace s @ map (\<lambda>w. Hard_lock w (pending_seq (view s) w)) (map snd (surfaces (view s)))"
  by (simp_all add: lock_tree_wlr_def)

lemma unlock_tree_wlr_fields [simp]:
  "view (unlock_tree_wlr s) = view s"
  "on_commit (unlock_tree_wlr s) = on_commit s"
  "held_soft_locks (unlock_tree_wlr s) = held_soft_locks s"
  "held_locks (unlock_tree_wlr s) = []"
  "kind (unlock_tree_wlr s) = kind s"
  "trace (unlock_tree_wlr s) = trace s @ map (\<lambda>(surf, lock_id). Hard_unlock surf lock_id) (held_locks s)"
  by (simp_all add: unlock_tree_wlr_def)

lemma unlock_tree_each_fields [simp]:
  "view (unlock_tree_each bs s) = view s"
  "on_commit (unlock_tree_each bs s) = on_commit s"
  "held_locks (unlock_tree_each bs s) = held_locks s"
  "kind (unlock_tree_each bs s) = kind s"
  by (induction bs arbitrary: s; simp split: prod.splits)+

lemma unlock_tree_fields [simp]:
  "view (unlock_tree s) = view s"
  "on_commit (unlock_tree s) = on_commit s"
  "held_locks (unlock_tree s) = held_locks s"
  "kind (unlock_tree s) = kind s"
  by (simp_all add: unlock_tree_def)

lemma upd_pending_fields [simp]:
  "on_commit (upd_pending f s) = on_commit s"
  "held_locks (upd_pending f s) = held_locks s"
  "held_soft_locks (upd_pending f s) = held_soft_locks s"
  "kind (upd_pending f s) = kind s"
  "trace (upd_pending f s) = trace s"
  "xdg_toplevel (view (upd_pending f s)) = xdg_toplevel (view s)"
  "impl_frame (view (upd_pending f s)) = impl_frame (view s)"
  "surfaces (view (upd_pending f s)) = surfaces (view s)"
  "pending_seq (view (upd_pending f s)) = pending_seq (view s)"
  "main_surface (view (upd_pending f s)) = main_surface (view s)"
  "impl_state (view (upd_pending f s)) = impl_state (view s)"
  "impl_pending (view (upd_pending f s)) = f (impl_pending (view s))"
  by (simp_all add: upd_pending_def)

lemma upd_state_fields [simp]:
  "on_commit (upd_state f s) = on_commit s"
  "held_locks (upd_state f s) = held_locks s"
  "held_soft_locks (upd_state f s) = held_soft_locks s"
  "kind (upd_state f s) = kind s"
  "trace (upd_state f s) = trace s"
  "xdg_toplevel (view (upd_state f s)) = xdg_toplevel (view s)"
  "impl_frame (view (upd_state f s)) = impl_frame (view s)"
  "surfaces (view (upd_state f s)) = surfaces (view s)"
  "pending_seq (view (upd_state f s)) = pending_seq (view s)"
  "main_surface (view (upd_state f s)) = main_surface (view s)"
  "impl_pending (view (upd_state f s)) = impl_pending (view s)"
  "impl_state (view (upd_state f s)) = f (impl_state (view s))"
  by (simp_all add: upd_state_def)

lemmas run_defs =
  step_def construct_def xdg_instruction_def set_pending_def commit_def apply_instr_def
  xdg_view_state_commit_def xdg_view_geometry_commit_def xdg_view_state_apply_def
  xdg_view_geometry_apply_def emit_final_size_and_ready_def check_ready_def surface_commit_def
  client_update_def connect_on_commit_def on_kill_def destroy_def lock_tree_def unlock_tree_def
  lock_tree_wlr_def unlock_tree_wlr_def log_event_def upd_pending_def upd_state_def
  map_index_def expanded_geometry_def expand_with_margins_def shrink_by_margins_def
  dimensions_def target_achieved_def MAX_u32_def

lemmas example_defs =
  example_view_def example_toplevel_def example_state_def example_margins_def keep_target_def

lemma map_of_map_set: "map_of (map_set k v m) = (map_of m)(k \<mapsto> v)"
  by (induction m) (auto simp: fun_eq_iff)

lemma held_locks_lock_tree_wlr_each:
  "map_of (held_locks (lock_tree_wlr_each ws s)) surf =
     (if surf \<in> set ws then Some (pending_seq (view s) surf) else map_of (held_locks s) surf)"
  by (induction ws arbitrary: s) (auto simp: map_of_map_set)

subsection \<open>The acknowledgment matcher\<close>

lemma MAX_u32_half: "MAX_u32 div 2 = (0x7FFFFFFF :: u32)"
  by (simp add: MAX_u32_def)

lemma target_achieved_words:
  "target_achieved c t \<longleftrightarrow>
     c \<noteq> 0 \<and> ((t \<le> c \<and> c - t < MAX_u32 div 2) \<or> (c < t \<and> MAX_u32 div 2 < t - c))"
  by (auto simp: target_achieved_def Let_def word_neq_0_conv)

lemma target_achieved_nat:
  "target_achieved c t \<longleftrightarrow>
      c \<noteq> 0 \<and>
      ((unat t \<le> unat c \<and> unat c - unat t < (2 ^ 32 - 1) div 2)
       \<or> (unat c < unat t \<and> (2 ^ 32 - 1) div 2 < unat t - unat c))"
proof -
  have h: "unat (MAX_u32 div 2) = (2 ^ 32 - 1) div 2"
    by (simp add: MAX_u32_def)
  have a: "t \<le> c \<Longrightarrow> (c - t < MAX_u32 div 2) = (unat c - unat t < (2 ^ 32 - 1) div 2)"
    by (simp add: word_less_nat_alt unat_sub h)
  have "c < t \<Longrightarrow> unat (t - c) = unat t - unat c"
    by (simp add: unat_sub)
  then have b: "c < t \<Longrightarrow> (MAX_u32 div 2 < t - c) = ((2 ^ 32 - 1) div 2 < unat t - unat c)"
    by (simp add: word_less_nat_alt h)
  show ?thesis
    unfolding target_achieved_words using a b
    by (auto simp: word_le_nat_alt word_less_nat_alt)
qed

lemma target_achieved_successor: "target_achieved (t + 1) t \<longleftrightarrow> t \<noteq> MAX_u32"
proof (cases "t = MAX_u32")
  case True
  then show ?thesis by (simp add: target_achieved_def MAX_u32_def)
next
  case False
  have "unat t < 2 ^ 32"
    using unsigned_less [of t, where 'a = nat] by simp
  moreover have "unat t \<noteq> 2 ^ 32 - 1"
    using False by (simp add: word_unat_eq_iff MAX_u32_def)
  ultimately have "unat t + unat (1 :: u32) < 2 ^ LENGTH(32)"
    by simp
  then have u: "unat (t + 1) = unat t + 1"
    by (simp add: unat_add_lem [THEN iffD1])
  then have nz: "t + 1 \<noteq> 0"
    by (metis Suc_eq_plus1 nat.distinct(1) unat_0)
  show ?thesis
    using False nz u by (simp add: target_achieved_nat)
qed

lemma target_achieved_predecessor: "\<not> target_achieved (t - 1) t"
proof (cases "t = 0")
  case True
  then show ?thesis by (simp add: target_achieved_def MAX_u32_def)
next
  case False
  then have "unat (t - 1) = unat t - 1" and "0 < unat t"
    by (simp_all add: unat_minus_one unat_gt_0)
  then show ?thesis by (auto simp: target_achieved_nat)
qed

text \<open>
  Claim C3. With the serials read as numbers below \<open>2 ^ 32\<close> and \<open>MAX = 2 ^ 32 - 1\<close>, the
  test of \<open>check_ready\<close> succeeds exactly when \<open>current\<close> is not zero and either
  \<open>current \<ge> target\<close> with \<open>current - target < MAX / 2\<close>, or \<open>target > current\<close> with
  \<open>target - current > MAX / 2\<close>. So it fails whenever \<open>current\<close> is zero; for
  \<open>target = current\<close> it succeeds as soon as \<open>current\<close> is not zero; for
  \<open>current = target + 1\<close> it succeeds unless the addition wraps (\<open>target = MAX\<close>, which makes
  \<open>current\<close> zero); it succeeds for \<open>current = 5\<close> and \<open>target = MAX - 3\<close>; and it fails for
  \<open>current = target - 1\<close>, whatever \<open>target\<close> is.
\<close>

theorem acknowledgment_matcher:
  "unat MAX_u32 = 2 ^ 32 - 1
   \<and> (target_achieved current target \<longleftrightarrow>
        current \<noteq> 0 \<and>
        ((unat target \<le> unat current \<and> unat current - unat target < (2 ^ 32 - 1) div 2)
         \<or> (unat current < unat target \<and> (2 ^ 32 - 1) div 2 < unat target - unat current)))
   \<and> target_achieved 0 target = False
   \<and> target_achieved current current = (current \<noteq> 0)
   \<and> target_achieved (target + 1) target = (target \<noteq> MAX_u32)
   \<and> target_achieved 5 (MAX_u32 - 3) = True
   \<and> target_achieved (target - 1) target = False"
proof -
  have "unat MAX_u32 = 2 ^ 32 - 1"
    by (simp add: MAX_u32_def)
  moreover have "target_achieved 0 target = False"
    by (simp add: target_achieved_def)
  moreover have "target_achieved current current = (current \<noteq> 0)"
    by (auto simp: target_achieved_def MAX_u32_half word_neq_0_conv)
  moreover have "target_achieved 5 (MAX_u32 - 3) = True"
    by (simp add: target_achieved_def MAX_u32_def)
  ultimately show ?thesis
    using target_achieved_nat [of current target] target_achieved_successor [of target]
      target_achieved_predecessor [of target]
    by blast
qed

subsection \<open>The tiling instruction that changes nothing\<close>

text \<open>
  Claim C9. When \<open>commit\<close> of a state instruction finds the desired edges equal to
  \<open>server_pending.tiled\<close> of the protocol object, it locks the tree, publishes the final
  size and emits ready in the same call; it sends neither \<open>set_maximized\<close> nor
  \<open>set_tiled\<close> nor a frame hint, and it leaves the \<open>on_commit\<close> listener as it was
  (disconnected, for an instruction that has only been staged).
\<close>

theorem tiling_noop:
  assumes "kind s = State_t desired_edges"
      and "xdg_toplevel (view s) = Some tlv"
      and "sp_tiled tlv = desired_edges"
  shows "\<exists>s'. commit s = Inr s'
           \<and> trace s' = trace s @ map Soft_lock (map fst (surfaces (view s)))
                 @ [Signal_final_size (dimensions (expanded_geometry (view s) tlv)), Signal_ready]
           \<and> on_commit s' = on_commit s
           \<and> view s' = view s"
  using assms
  by (simp add: commit_def xdg_view_state_commit_def emit_final_size_and_ready_def)

text \<open>The window of the example is not tiled, and the instruction asks for no tiled edge.\<close>

theorem tiling_noop_witness:
  "kind (set_pending (construct example_view (State_t 0))) = State_t 0
   \<and> xdg_toplevel (view (set_pending (construct example_view (State_t 0)))) = Some example_toplevel
   \<and> sp_tiled example_toplevel = 0
   \<and> (\<exists>s'. commit (set_pending (construct example_view (State_t 0))) = Inr s'
        \<and> trace s' = [Take_ref, Connect_kill, Soft_lock 1, Soft_lock 2,
                       Signal_final_size (800, 600), Signal_ready]
        \<and> on_commit s' = None)"
proof -
  let ?s = "set_pending (construct example_view (State_t 0))"
  have k: "kind ?s = State_t 0"
    by (simp add: set_pending_def construct_def xdg_instruction_def)
  have t: "xdg_toplevel (view ?s) = Some example_toplevel"
    by (simp add: set_pending_def construct_def xdg_instruction_def example_view_def)
  have e: "sp_tiled example_toplevel = 0"
    by (simp add: example_toplevel_def)
  from tiling_noop [OF k t e] k t e show ?thesis
    by (simp add: run_defs example_defs)
qed

subsection \<open>Unmapping locks in \<open>set_pending\<close>\<close>

text \<open>
  Claim C7. \<open>set_pending\<close> of an unmap instruction takes the hard locks: when it returns,
  \<open>held_locks\<close> has the token of every surface of the tree, and the trace has one
  \<open>wlr_surface_lock_pending\<close> per surface. \<open>commit\<close> afterwards only emits ready.
\<close>

theorem unmap_locks_in_stage:
  assumes "kind s = Unmap_t"
  shows "(\<forall>surf \<in> set (map snd (surfaces (view s))).
            map_of (held_locks (set_pending s)) surf = Some (pending_seq (view s) surf))
         \<and> trace (set_pending s) =
             trace s @ map (\<lambda>surf. Hard_lock surf (pending_seq (view s) surf))
                         (map snd (surfaces (view s)))
         \<and> commit (set_pending s) = Inr (log_event Signal_ready (set_pending s))"
  using assms
  by (simp add: set_pending_def commit_def lock_tree_wlr_def held_locks_lock_tree_wlr_each)

text \<open>On the example window the two surfaces are locked with the tokens 111 and 112.\<close>

theorem unmap_locks_in_stage_witness:
  "kind (construct example_view Unmap_t) = Unmap_t
   \<and> map_of (held_locks (set_pending (construct example_view Unmap_t))) 11 = Some 111
   \<and> map_of (held_locks (set_pending (construct example_view Unmap_t))) 12 = Some 112
   \<and> trace (set_pending (construct example_view Unmap_t)) =
       [Take_ref, Connect_kill, Hard_lock 11 111, Hard_lock 12 112]
   \<and> (\<exists>s'. commit (set_pending (construct example_view Unmap_t)) = Inr s'
         \<and> trace s' = [Take_ref, Connect_kill, Hard_lock 11 111, Hard_lock 12 112, Signal_ready]
         \<and> held_locks s' = [(11, 111), (12, 112)])"
proof -
  have k: "kind (construct example_view Unmap_t) = Unmap_t"
    by (simp add: construct_def xdg_instruction_def)
  from unmap_locks_in_stage [OF k] k show ?thesis
    by (simp add: run_defs example_defs)
qed

subsection \<open>The protocol object is gone when \<open>commit\<close> runs\<close>

text \<open>
  Claim C8 says that \<open>commit\<close> with a null \<open>view->xdg_toplevel\<close> publishes the final size
  and emits ready without an error. The state and the geometry instruction do test the
  pointer and call \<open>emit_final_size_and_ready\<close>, but that method starts by reading
  \<open>view->xdg_toplevel->base\<close>: the call dereferences the null pointer before it emits
  anything. Here for a tiling request and for a client-initiated resize.
\<close>

theorem vanished_toplevel_null_dereference:
  "commit (set_pending (construct (example_view\<lparr>xdg_toplevel := None\<rparr>) (State_t 15)))
     = Inl NullDeref
   \<and> commit (set_pending (construct (example_view\<lparr>xdg_toplevel := None\<rparr>)
        (Geometry_t \<lparr>box_x = 100, box_y = 100, box_w = 400, box_h = 300\<rparr> 0 True)))
     = Inl NullDeref"
  by (simp add: run_defs example_defs)

subsection \<open>\<open>lock_tree\<close> on a tree that is already locked\<close>

text \<open>
  Claim C5 says that \<open>lock_tree\<close> does not call \<open>lock()\<close> on a surface it has already
  marked. \<open>lock_tree\<close> has no such test (\<open>unlock_tree\<close> has one): the constructor of a
  client-initiated resize locks both surfaces of the example window, \<open>commit\<close> locks them
  again, \<open>apply\<close> unlocks each once, and one \<open>lock()\<close> per surface is never undone.
\<close>

theorem client_initiated_resize_locks_twice:
  "\<exists>s1 s2. run keep_target [Stage, Request]
        (construct example_view
           (Geometry_t \<lparr>box_x = 100, box_y = 100, box_w = 400, box_h = 300\<rparr> 0 True)) = Inr s1
     \<and> trace s1 = [Take_ref, Connect_kill, Soft_lock 1, Soft_lock 2, Soft_lock 1, Soft_lock 2,
                    Signal_final_size (800, 600), Signal_ready]
     \<and> count_list (trace s1) (Soft_lock 1) = 2
     \<and> run keep_target [Finalize, Destroy] s1 = Inr s2
     \<and> soft_outstanding (trace s2) 1 = 1
     \<and> soft_outstanding (trace s2) 2 = 1"
  by (simp add: run_defs example_defs Let_def soft_outstanding_def)

subsection \<open>A resize, from the request to the applied geometry\<close>

text \<open>
  Claim C6. The window of the example is at \<open>(0, 0, 800, 600)\<close> and its frame has a top
  margin of 30. A resize to \<open>(100, 100, 400, 300)\<close> is staged while the pending gravity is
  \<open>g\<close>, and \<open>commit\<close> sends a configure of size \<open>(400, 270)\<close>. When the client commits
  with the serial of that configure and a surface geometry of size \<open>(400, 270)\<close>,
  \<open>check_ready\<close> takes the hard locks and publishes the final size \<open>(400, 300)\<close> before
  ready. \<open>apply\<close> expands the surface geometry by the margins again, to height 300,
  and writes into the live state the target aligned with that box under \<open>g\<close>, the gravity
  \<open>set_pending\<close> captured: neither the value \<open>current_gravity\<close> had before (\<open>g0\<close>) nor a
  pending gravity written later (\<open>g'\<close>) matters.
\<close>

theorem resize_round_trip:
  "\<exists>s1 s2 s3.
      run align [Stage, Request]
        (construct (example_view\<lparr>impl_pending := example_state\<lparr>gravity := g\<rparr>\<rparr>)
           (Geometry_t \<lparr>box_x = 100, box_y = 100, box_w = 400, box_h = 300\<rparr> g0 False)) = Inr s1
    \<and> trace s1 = [Take_ref, Connect_kill, Soft_lock 1, Soft_lock 2,
                   Set_size 400 270, Send_frame 11]
    \<and> on_commit s1 = Some 7
    \<and> step align (Client_commit 7 \<lparr>box_x = x, box_y = y, box_w = 400, box_h = 270\<rparr>) s1 = Inr s2
    \<and> trace s2 = trace s1 @ [Hard_lock 11 111, Hard_lock 12 112,
                              Signal_final_size (400, 300), Signal_ready]
    \<and> step align Finalize (upd_pending (\<lambda>p. p\<lparr>gravity := g'\<rparr>) s2) = Inr s3
    \<and> trace s3 = trace s2 @ [Damage, Soft_unlock 1, Soft_unlock 2, Damage]
    \<and> st_geometry (impl_state (view s3)) =
        align \<lparr>box_x = 100, box_y = 100, box_w = 400, box_h = 300\<rparr>
              \<lparr>box_x = x, box_y = y - 30, box_w = 400, box_h = 300\<rparr> g"
  by (simp add: run_defs example_defs Let_def)

subsection \<open>A resize whose protocol object is gone\<close>

text \<open>
  Claim C10 says that \<open>apply\<close> of a resize reads \<open>view->xdg_toplevel->base\<close> without a
  test, and that the instruction can reach ready with a null protocol object through the
  test at the start of \<open>commit\<close>. The read in \<open>apply\<close> is as the claim says: a
  client-initiated resize of the example window is ready when \<open>commit\<close> returns, and if
  the protocol object goes away before \<open>apply\<close> runs, \<open>apply\<close> dereferences the null
  pointer. But ready is not reached through the test in \<open>commit\<close>: with a null protocol
  object \<open>commit\<close> calls \<open>emit_final_size_and_ready\<close>, which makes the same unchecked
  read and emits nothing.
\<close>

theorem resize_short_circuit_null_dereference:
  "run keep_target [Stage, Request]
     (construct (example_view\<lparr>xdg_toplevel := None\<rparr>)
        (Geometry_t \<lparr>box_x = 100, box_y = 100, box_w = 400, box_h = 300\<rparr> 0 False))
     = Inl NullDeref
   \<and> (\<exists>s1. run keep_target [Stage, Request]
          (construct example_view
             (Geometry_t \<lparr>box_x = 100, box_y = 100, box_w = 400, box_h = 300\<rparr> 0 True)) = Inr s1
        \<and> Signal_ready \<in> set (trace s1)
        \<and> run keep_target [Toplevel_destroyed, Finalize] s1 = Inl NullDeref)"
  by (simp add: run_defs example_defs Let_def)

subsection \<open>The final size and the ready signal\<close>

lemma run_append:
  "run align (xs @ ys) s = (case run align xs s of Inl e \<Rightarrow> Inl e | Inr s' \<Rightarrow> run align ys s')"
  by (induction xs arbitrary: s) (auto split: sum.splits)

lemma scheduled_Cons: "scheduled p (a # as) = (allowed p a \<and> scheduled (next_phase p a) as)"
  by (cases a) auto

lemma ready_signals_append [simp]:
  "ready_signals (xs @ ys) = ready_signals xs @ ready_signals ys"
  by (simp add: ready_signals_def)

lemma ready_signals_simps [simp]:
  "ready_signals [] = []"
  "ready_signals (e # es) = (if is_ready_signal e then e # ready_signals es else ready_signals es)"
  by (simp_all add: ready_signals_def)

lemma ready_signals_map_none:
  "(\<And>x. \<not> is_ready_signal (f x)) \<Longrightarrow> ready_signals (map f xs) = []"
  by (induction xs) simp_all

lemma ready_signals_locks [simp]:
  "ready_signals (map (Soft_lock \<circ> h) xs) = []"
  "ready_signals (map (\<lambda>w. Hard_lock w (f w)) ws) = []"
  "ready_signals (map ((\<lambda>w. Hard_lock w (f w)) \<circ> h') xs') = []"
  "ready_signals (map (\<lambda>(surf, lock_id). Hard_unlock surf lock_id) m) = []"
  by (simp_all add: ready_signals_map_none split: prod.splits)

lemma count_unlock_tree_each:
  "\<forall>b. e \<noteq> Soft_unlock b \<Longrightarrow>
     count_list (trace (unlock_tree_each bs s)) e = count_list (trace s) e"
  by (induction bs arbitrary: s) (auto split: prod.splits)

lemma ready_signals_unlock_tree_each [simp]:
  "ready_signals (trace (unlock_tree_each bs s)) = ready_signals (trace s)"
  by (induction bs arbitrary: s) (auto split: prod.splits)

lemma ready_signals_unlock_tree [simp]:
  "ready_signals (trace (unlock_tree s)) = ready_signals (trace s)"
  by (simp add: unlock_tree_def)

lemma kind_client_update [simp]:
  "kind (client_update c g s) = kind s"
  "trace (client_update c g s) = trace s"
  "on_commit (client_update c g s) = on_commit s"
  "held_locks (client_update c g s) = held_locks s"
  "held_soft_locks (client_update c g s) = held_soft_locks s"
  "surfaces (view (client_update c g s)) = surfaces (view s)"
  by (simp_all add: client_update_def)

lemma is_unmap_step:
  "step align a s = Inr s' \<Longrightarrow> is_unmap (kind s') = is_unmap (kind s)"
  by (cases a; cases "kind s")
     (auto simp: step_def set_pending_def commit_def apply_instr_def
        xdg_view_state_commit_def xdg_view_geometry_commit_def xdg_view_state_apply_def
        xdg_view_geometry_apply_def emit_final_size_and_ready_def check_ready_def
        surface_commit_def connect_on_commit_def on_kill_def destroy_def Let_def
        split: option.splits if_splits sum.splits prod.splits)

lemma step_signals:
  assumes "\<not> is_unmap (kind s)" and "step align a s = Inr s'"
  shows "ready_signals (trace s') = ready_signals (trace s)
       \<or> (\<exists>tlv. xdg_toplevel (view s') = Some tlv
            \<and> ready_signals (trace s') = ready_signals (trace s)
                 @ [Signal_final_size (dimensions (expanded_geometry (view s') tlv)), Signal_ready])"
  using assms
  by (cases a; cases "kind s")
     (auto simp: step_def set_pending_def commit_def apply_instr_def
        xdg_view_state_commit_def xdg_view_geometry_commit_def xdg_view_state_apply_def
        xdg_view_geometry_apply_def emit_final_size_and_ready_def check_ready_def
        surface_commit_def connect_on_commit_def on_kill_def destroy_def Let_def
        split: option.splits if_splits sum.splits prod.splits)


lemmas method_defs =
  step_def set_pending_def commit_def apply_instr_def
  xdg_view_state_commit_def xdg_view_geometry_commit_def xdg_view_state_apply_def
  xdg_view_geometry_apply_def emit_final_size_and_ready_def check_ready_def
  surface_commit_def connect_on_commit_def on_kill_def destroy_def Let_def

lemma surface_commit_cases:
  assumes "surface_commit s = Inr s'"
  obtains (idle) "on_commit s = None" "s' = s"
  | (achieved) serial tlv where "on_commit s = Some serial" "xdg_toplevel (view s) = Some tlv"
      "target_achieved (configure_serial tlv) serial"
      "s' = log_event Signal_ready
              (log_event (Signal_final_size (dimensions (expanded_geometry (view s) tlv)))
                 (lock_tree_wlr (s\<lparr>on_commit := None\<rparr>)))"
  | (waiting) serial where "on_commit s = Some serial" "on_commit s' = on_commit s"
      "held_locks s' = held_locks s" "held_soft_locks s' = held_soft_locks s"
      "kind s' = kind s" "view s' = view s"
      "trace s' = trace s \<or> (\<exists>surf. trace s' = trace s @ [Send_frame surf])"
  using assms
  by (auto simp: surface_commit_def check_ready_def emit_final_size_and_ready_def
      split: option.splits if_splits sum.splits)

lemma signals_inv_client_update:
  "signals_inv p (client_update serial g s) = signals_inv p s"
  by (simp add: signals_inv_def)

lemma signals_inv_surface_commit:
  assumes "signals_inv p s" and "surface_commit s = Inr s'"
  shows "signals_inv p s'"
  using assms(2)
proof (cases rule: surface_commit_cases)
  case idle
  with assms(1) show ?thesis by simp
next
  case (achieved serial tlv)
  with assms(1) show ?thesis
    by (auto simp: signals_inv_def)
next
  case (waiting serial)
  with assms(1) show ?thesis
    by (auto simp: signals_inv_def)
qed

lemma signals_inv_commit:
  assumes "signals_inv Staged s" and "commit s = Inr s'"
  shows "signals_inv Requested s'"
  using assms
  by (cases "kind s")
     (auto simp: signals_inv_def commit_def xdg_view_state_commit_def
        xdg_view_geometry_commit_def emit_final_size_and_ready_def connect_on_commit_def Let_def
        split: option.splits if_splits)

lemma signals_inv_set_pending:
  "signals_inv Created s \<Longrightarrow> signals_inv Staged (set_pending s)"
  by (cases "kind s") (auto simp: signals_inv_def set_pending_def)

lemma signals_inv_apply:
  assumes "signals_inv Requested s" and "apply_instr align s = Inr s'"
  shows "signals_inv Done s'"
  using assms
  by (cases "kind s")
     (auto simp: signals_inv_def apply_instr_def xdg_view_state_apply_def
        xdg_view_geometry_apply_def Let_def split: option.splits)

lemma signals_inv_step:
  assumes "allowed p a" and "signals_inv p s" and "step align a s = Inr s'"
  shows "signals_inv (next_phase p a) s'"
proof (cases a)
  case Stage
  with assms show ?thesis
    by (auto simp: step_def signals_inv_set_pending)
next
  case Request
  with assms show ?thesis
    by (auto simp: step_def signals_inv_commit)
next
  case (Client_commit serial g)
  with assms show ?thesis
    by (auto simp: step_def signals_inv_client_update dest: signals_inv_surface_commit [rotated])
next
  case Finalize
  with assms show ?thesis
    by (auto simp: step_def dest: signals_inv_apply)
next
  case Kill
  with assms show ?thesis
    by (auto simp: signals_inv_def step_def on_kill_def)
next
  case Destroy
  with assms show ?thesis by simp
next
  case Toplevel_destroyed
  with assms show ?thesis
    by (auto simp: signals_inv_def step_def)
next
  case (Surfaces_changed ss)
  with assms show ?thesis
    by (auto simp: signals_inv_def step_def)
qed

lemma signals_inv_run:
  "scheduled p acts \<Longrightarrow> signals_inv p s \<Longrightarrow> run align acts s = Inr s'
     \<Longrightarrow> \<exists>p'. signals_inv p' s'"
proof (induction acts arbitrary: p s)
  case Nil
  then show ?case by auto
next
  case (Cons a as)
  from Cons.prems(3) obtain s1 where s1: "step align a s = Inr s1" and r: "run align as s1 = Inr s'"
    by (auto split: sum.splits)
  from Cons.prems(1) have al: "allowed p a" and sc: "scheduled (next_phase p a) as"
    by (simp_all add: scheduled_Cons)
  from signals_inv_step [OF al Cons.prems(2) s1] have "signals_inv (next_phase p a) s1" .
  from Cons.IH [OF sc this r] show ?case .
qed

lemma signals_inv_construct: "signals_inv Created (construct v k)"
  by (cases k) (auto simp: signals_inv_def construct_def xdg_instruction_def)

lemma kind_construct [simp]: "kind (construct v k) = k"
  by (cases k) (auto simp: construct_def xdg_instruction_def)

lemma is_unmap_run:
  "run align acts s = Inr s' \<Longrightarrow> is_unmap (kind s') = is_unmap (kind s)"
  by (induction acts arbitrary: s) (auto split: sum.splits dest: is_unmap_step)

text \<open>
  Claim C4 says that every instruction publishes the final size before it emits ready. The
  unmap instruction does not: its \<open>commit\<close> emits ready and nothing else.
\<close>

theorem unmap_ready_without_final_size:
  "\<exists>s'. run keep_target [Stage, Request] (construct example_view Unmap_t) = Inr s'
     \<and> ready_signals (trace s') = [Signal_ready]"
  by (simp add: run_defs example_defs)

text \<open>
  Claim C4, amended. For a state, geometry, gravity or map instruction, every call that
  returns after emitting ready has published, just before it, the final size: the
  dimensions of the surface geometry of the protocol object, expanded by the margins when
  the view has a frame, as they are when the call returns. Along every scheduled run such
  an instruction publishes the final size and emits ready at most once, in that order. An
  unmap instruction emits ready at most once and never publishes a final size.
\<close>

theorem final_size_before_ready:
  "(\<forall>a s s'. \<not> is_unmap (kind s) \<longrightarrow> step align a s = Inr s' \<longrightarrow>
       ready_signals (trace s') = ready_signals (trace s)
       \<or> (\<exists>tlv. xdg_toplevel (view s') = Some tlv
            \<and> ready_signals (trace s') = ready_signals (trace s)
                 @ [Signal_final_size (dimensions (expanded_geometry (view s') tlv)), Signal_ready]))
   \<and> (\<forall>acts s'. \<not> is_unmap k \<longrightarrow> scheduled Created acts \<longrightarrow>
          run align acts (construct v k) = Inr s' \<longrightarrow>
          ready_signals (trace s') = []
          \<or> (\<exists>d. ready_signals (trace s') = [Signal_final_size d, Signal_ready]))
   \<and> (\<forall>acts s'. scheduled Created acts \<longrightarrow>
          run align acts (construct v Unmap_t) = Inr s' \<longrightarrow>
          ready_signals (trace s') = [] \<or> ready_signals (trace s') = [Signal_ready])"
proof (intro conjI allI impI)
  fix a s s'
  assume "\<not> is_unmap (kind s)" and "step align a s = Inr s'"
  then show "ready_signals (trace s') = ready_signals (trace s)
       \<or> (\<exists>tlv. xdg_toplevel (view s') = Some tlv
            \<and> ready_signals (trace s') = ready_signals (trace s)
                 @ [Signal_final_size (dimensions (expanded_geometry (view s') tlv)), Signal_ready])"
    by (rule step_signals)
next
  fix acts s'
  assume k: "\<not> is_unmap k" and sc: "scheduled Created acts"
    and r: "run align acts (construct v k) = Inr s'"
  from signals_inv_run [OF sc signals_inv_construct r] obtain p' where "signals_inv p' s'" ..
  moreover from is_unmap_run [OF r] k have "\<not> is_unmap (kind s')" by simp
  ultimately show "ready_signals (trace s') = []
          \<or> (\<exists>d. ready_signals (trace s') = [Signal_final_size d, Signal_ready])"
    by (auto simp: signals_inv_def)
next
  fix acts s'
  assume sc: "scheduled Created acts"
    and r: "run align acts (construct v Unmap_t) = Inr s'"
  from signals_inv_run [OF sc signals_inv_construct r] obtain p' where "signals_inv p' s'" ..
  moreover from is_unmap_run [OF r] have "is_unmap (kind s')" by simp
  ultimately show "ready_signals (trace s') = [] \<or> ready_signals (trace s') = [Signal_ready]"
    by (auto simp: signals_inv_def)
qed

text \<open>
  A tiling request on the example window waits for serial 7. The client commits with
  serial 3 first, then with serial 7 and a surface geometry of size \<open>(640, 450)\<close>, then
  again: the final size \<open>(640, 480)\<close> is published once, before ready.
\<close>

theorem final_size_before_ready_witness:
  "\<exists>s1 s2 s3 s4.
      run keep_target [Stage, Request] (construct example_view (State_t 15)) = Inr s1
    \<and> \<not> is_unmap (kind s1)
    \<and> ready_signals (trace s1) = []
    \<and> step keep_target
         (Client_commit 7 \<lparr>box_x = 0, box_y = 30, box_w = 800, box_h = 570\<rparr>) s1 = Inr s2
    \<and> ready_signals (trace s2) = [Signal_final_size (800, 600), Signal_ready]
    \<and> scheduled Created
         [Stage, Request, Client_commit 3 \<lparr>box_x = 0, box_y = 30, box_w = 800, box_h = 570\<rparr>,
          Client_commit 7 \<lparr>box_x = 0, box_y = 30, box_w = 640, box_h = 450\<rparr>,
          Client_commit 8 \<lparr>box_x = 0, box_y = 30, box_w = 800, box_h = 570\<rparr>, Finalize]
    \<and> run keep_target
         [Stage, Request, Client_commit 3 \<lparr>box_x = 0, box_y = 30, box_w = 800, box_h = 570\<rparr>,
          Client_commit 7 \<lparr>box_x = 0, box_y = 30, box_w = 640, box_h = 450\<rparr>,
          Client_commit 8 \<lparr>box_x = 0, box_y = 30, box_w = 800, box_h = 570\<rparr>, Finalize]
         (construct example_view (State_t 15)) = Inr s3
    \<and> ready_signals (trace s3) = [Signal_final_size (640, 480), Signal_ready]
    \<and> scheduled Created [Stage, Request, Finalize]
    \<and> run keep_target [Stage, Request, Finalize] (construct example_view Unmap_t) = Inr s4
    \<and> ready_signals (trace s4) = [Signal_ready]"
  using final_size_before_ready [of keep_target "State_t 15" example_view]
  by (simp add: run_defs example_defs Let_def)

subsection \<open>Hard locks along a scheduled run\<close>

lemma hard_outstanding_append [simp]:
  "hard_outstanding (xs @ ys) surf tok = hard_outstanding xs surf tok + hard_outstanding ys surf tok"
  by (simp add: hard_outstanding_def)

lemma hard_outstanding_Nil [simp]: "hard_outstanding [] surf tok = 0"
  by (simp add: hard_outstanding_def)

lemma hard_outstanding_Cons [simp]:
  "hard_outstanding (e # es) surf tok =
     (if e = Hard_lock surf tok then 1 else if e = Hard_unlock surf tok then - 1 else 0)
       + hard_outstanding es surf tok"
  by (simp add: hard_outstanding_def)

lemma hard_outstanding_map_other:
  "(\<And>x. f x \<noteq> Hard_lock surf tok) \<Longrightarrow> (\<And>x. f x \<noteq> Hard_unlock surf tok)
     \<Longrightarrow> hard_outstanding (map f xs) surf tok = 0"
  by (induction xs) simp_all

lemma hard_outstanding_soft [simp]:
  "hard_outstanding (map (Soft_lock \<circ> h) xs) surf tok = 0"
  by (simp add: hard_outstanding_map_other)

lemma hard_outstanding_locked:
  "hard_outstanding (map (\<lambda>w. Hard_lock w (f w)) ws) surf tok
     = int (count_list (map (\<lambda>w. (w, f w)) ws) (surf, tok))"
  by (induction ws) auto

lemma hard_outstanding_unlocked:
  "hard_outstanding (map (\<lambda>(surf, lock_id). Hard_unlock surf lock_id) m) surf tok
     = - int (count_list m (surf, tok))"
  by (induction m) auto

lemma hard_outstanding_unlock_tree_each [simp]:
  "hard_outstanding (trace (unlock_tree_each bs s)) surf tok = hard_outstanding (trace s) surf tok"
  by (simp add: hard_outstanding_def count_unlock_tree_each)

lemma hard_outstanding_unlock_tree [simp]:
  "hard_outstanding (trace (unlock_tree s)) surf tok = hard_outstanding (trace s) surf tok"
  by (simp add: unlock_tree_def)

lemma keys_map_set: "fst ` set (map_set k v m) = insert k (fst ` set m)"
  by (simp add: dom_map_of_conv_image_fst [symmetric] map_of_map_set)

lemma count_map_set_fresh:
  "k \<notin> fst ` set m \<Longrightarrow>
     count_list (map_set k v m) x = count_list m x + (if x = (k, v) then 1 else 0)"
  by (induction m) (force split: if_splits)+

lemma held_locks_lock_tree_wlr_each_count:
  "distinct ws \<Longrightarrow> set ws \<inter> fst ` set (held_locks s) = {} \<Longrightarrow>
     count_list (held_locks (lock_tree_wlr_each ws s)) x
       = count_list (held_locks s) x + count_list (map (\<lambda>w. (w, pending_seq (view s) w)) ws) x"
proof (induction ws arbitrary: s)
  case Nil
  then show ?case by simp
next
  case (Cons w ws)
  let ?s1 = "log_event (Hard_lock w (pending_seq (view s) w))
          (s\<lparr>held_locks := map_set w (pending_seq (view s) w) (held_locks s)\<rparr>)"
  from Cons.prems have fresh: "w \<notin> fst ` set (held_locks s)" and d: "distinct ws" and nw: "w \<notin> set ws"
    and dj: "set ws \<inter> fst ` set (held_locks s) = {}"
    by auto
  have "set ws \<inter> fst ` set (held_locks ?s1) = {}"
    using nw dj by (simp add: keys_map_set)
  from Cons.IH [OF d this] fresh show ?case
    by (simp add: count_map_set_fresh)
qed

lemma hard_inv_lock_tree_wlr:
  assumes "\<forall>surf tok. hard_outstanding (trace s) surf tok = 0" and "held_locks s = []"
    and "distinct (map snd (surfaces (view s)))"
  shows "hard_outstanding (trace (lock_tree_wlr s)) surf tok
           = int (count_list (held_locks (lock_tree_wlr s)) (surf, tok))"
  using assms
  by (simp add: lock_tree_wlr_def hard_outstanding_locked held_locks_lock_tree_wlr_each_count
      del: map_map)


lemma hard_inv_client_update:
  "hard_inv p (client_update serial g s) = hard_inv p s"
  by (simp add: hard_inv_def)

lemma hard_inv_set_pending:
  assumes "hard_inv Created s"
  shows "hard_inv Staged (set_pending s)"
proof (cases "kind s")
  case Unmap_t
  let ?s1 = "upd_pending (\<lambda>p. p\<lparr>mapped := False\<rparr>) s"
  from assms have z: "\<forall>surf tok. hard_outstanding (trace ?s1) surf tok = 0"
    and e: "held_locks ?s1 = []" and d: "distinct (map snd (surfaces (view ?s1)))"
    by (simp_all add: hard_inv_def)
  from hard_inv_lock_tree_wlr [OF z e d] assms Unmap_t show ?thesis
    by (simp add: hard_inv_def set_pending_def)
qed (use assms in \<open>auto simp: hard_inv_def set_pending_def\<close>)

lemma hard_inv_commit:
  assumes "hard_inv Staged s" and "commit s = Inr s'"
  shows "hard_inv Requested s'"
  using assms
  by (cases "kind s")
     (auto simp: hard_inv_def commit_def xdg_view_state_commit_def
        xdg_view_geometry_commit_def emit_final_size_and_ready_def connect_on_commit_def Let_def
        split: option.splits if_splits)

lemma hard_inv_surface_commit:
  assumes "hard_inv p s" and "surface_commit s = Inr s'"
  shows "hard_inv p s'"
  using assms(2)
proof (cases rule: surface_commit_cases)
  case idle
  with assms(1) show ?thesis by simp
next
  case (achieved serial tlv)
  let ?s1 = "s\<lparr>on_commit := None\<rparr>"
  from assms(1) achieved(1) have z: "\<forall>surf tok. hard_outstanding (trace ?s1) surf tok = 0"
    and e: "held_locks ?s1 = []" and d: "distinct (map snd (surfaces (view ?s1)))"
    and nu: "\<not> is_unmap (kind s)" and np: "p \<noteq> Created" "p \<noteq> Staged"
    by (auto simp: hard_inv_def)
  from hard_inv_lock_tree_wlr [OF z e d] d nu np achieved(4) show ?thesis
    by (simp add: hard_inv_def)
next
  case (waiting serial)
  with assms(1) show ?thesis
    by (auto simp: hard_inv_def)
qed

lemma hard_inv_apply:
  assumes "hard_inv Requested s" and "apply_instr align s = Inr s'"
  shows "hard_inv Done s'"
  using assms
  by (cases "kind s")
     (auto simp: hard_inv_def apply_instr_def xdg_view_state_apply_def
        xdg_view_geometry_apply_def Let_def hard_outstanding_unlocked split: option.splits)

lemma hard_inv_step:
  assumes "allowed p a" and "hard_inv p s" and "step align a s = Inr s'"
  shows "hard_inv (next_phase p a) s'"
proof (cases a)
  case Stage
  with assms show ?thesis
    by (auto simp: step_def hard_inv_set_pending)
next
  case Request
  with assms show ?thesis
    by (auto simp: step_def hard_inv_commit)
next
  case (Client_commit serial g)
  with assms show ?thesis
    by (auto simp: step_def hard_inv_client_update dest: hard_inv_surface_commit [rotated])
next
  case Finalize
  with assms show ?thesis
    by (auto simp: step_def dest: hard_inv_apply)
next
  case Kill
  with assms show ?thesis
    by (auto simp: hard_inv_def step_def on_kill_def)
next
  case Destroy
  with assms show ?thesis by simp
next
  case Toplevel_destroyed
  with assms show ?thesis
    by (auto simp: hard_inv_def step_def)
next
  case (Surfaces_changed ss)
  with assms show ?thesis
    by (auto simp: hard_inv_def step_def)
qed

lemma hard_inv_run:
  "scheduled p acts \<Longrightarrow> hard_inv p s \<Longrightarrow> run align acts s = Inr s'
     \<Longrightarrow> \<exists>p'. hard_inv p' s'"
proof (induction acts arbitrary: p s)
  case Nil
  then show ?case by auto
next
  case (Cons a as)
  from Cons.prems(3) obtain s1 where s1: "step align a s = Inr s1" and r: "run align as s1 = Inr s'"
    by (auto split: sum.splits)
  from Cons.prems(1) have al: "allowed p a" and sc: "scheduled (next_phase p a) as"
    by (simp_all add: scheduled_Cons)
  from hard_inv_step [OF al Cons.prems(2) s1] have "hard_inv (next_phase p a) s1" .
  from Cons.IH [OF sc this r] show ?case .
qed

lemma hard_inv_construct:
  "distinct_surfaces v \<Longrightarrow> hard_inv Created (construct v k)"
  by (cases k)
     (auto simp: hard_inv_def construct_def xdg_instruction_def distinct_surfaces_def)

lemma hard_inv_destroy:
  "hard_inv p s \<Longrightarrow> hard_outstanding (trace (destroy s)) surf tok = 0"
  by (simp add: hard_inv_def destroy_def hard_outstanding_unlocked)

lemma hard_released_at_destruction:
  assumes "distinct_surfaces v" and "scheduled Created acts"
    and "run align (acts @ [Destroy]) (construct v k) = Inr s'"
  shows "hard_outstanding (trace s') surf tok = 0"
proof -
  from assms(3) obtain s1 where r: "run align acts (construct v k) = Inr s1"
    and d: "s' = destroy s1"
    by (auto simp: run_append step_def split: sum.splits)
  from hard_inv_run [OF assms(2) hard_inv_construct [OF assms(1)] r]
  obtain p' where "hard_inv p' s1" ..
  with d show ?thesis by (simp add: hard_inv_destroy)
qed

subsection \<open>Soft locks\<close>

lemma soft_outstanding_append [simp]:
  "soft_outstanding (xs @ ys) b = soft_outstanding xs b + soft_outstanding ys b"
  by (simp add: soft_outstanding_def)

lemma soft_outstanding_Nil [simp]: "soft_outstanding [] b = 0"
  by (simp add: soft_outstanding_def)

lemma soft_outstanding_Cons [simp]:
  "soft_outstanding (e # es) b =
     (if e = Soft_lock b then 1 else if e = Soft_unlock b then - 1 else 0)
       + soft_outstanding es b"
  by (simp add: soft_outstanding_def)

lemma soft_outstanding_map_other:
  "(\<And>x. f x \<noteq> Soft_lock b) \<Longrightarrow> (\<And>x. f x \<noteq> Soft_unlock b)
     \<Longrightarrow> soft_outstanding (map f xs) b = 0"
  by (induction xs) simp_all

lemma soft_outstanding_hard [simp]:
  "soft_outstanding (map (\<lambda>w. Hard_lock w (f w)) ws) b = 0"
  "soft_outstanding (map ((\<lambda>w. Hard_lock w (f w)) \<circ> h) xs) b = 0"
  "soft_outstanding (map (\<lambda>(surf, lock_id). Hard_unlock surf lock_id) m) b = 0"
  by (simp_all add: soft_outstanding_map_other split: prod.splits)

lemma soft_outstanding_locked:
  "distinct bs \<Longrightarrow> soft_outstanding (map Soft_lock bs) b = (if b \<in> set bs then 1 else 0)"
  by (induction bs) auto

lemma flags_lock_tree_each:
  "map_of (held_soft_locks (lock_tree_each bs s)) b =
     (if b \<in> set bs then Some True else map_of (held_soft_locks s) b)"
  by (induction bs arbitrary: s) (auto simp: map_of_map_set)

lemma map_index_flag:
  "map_index b m = (held, m') \<Longrightarrow>
     held = (map_of m b = Some True)
     \<and> (\<forall>c. (map_of m' c = Some True) = (map_of m c = Some True))"
  by (auto simp: map_index_def map_of_map_set split: option.splits if_splits)

lemma unlock_tree_each_flags:
  "(map_of (held_soft_locks (unlock_tree_each bs s)) c = Some True)
     = (map_of (held_soft_locks s) c = Some True \<and> c \<notin> set bs)"
proof (induction bs arbitrary: s)
  case Nil
  then show ?case by simp
next
  case (Cons b bs)
  obtain held m where mi: "map_index b (held_soft_locks s) = (held, m)"
    by (cases "map_index b (held_soft_locks s)")
  from map_index_flag [OF mi] Cons.IH show ?case
    by (auto simp: mi map_of_map_set)
qed

lemma unlock_tree_each_outstanding:
  "soft_outstanding (trace (unlock_tree_each bs s)) c
     = soft_outstanding (trace s) c
        - (if c \<in> set bs \<and> map_of (held_soft_locks s) c = Some True then 1 else 0)"
proof (induction bs arbitrary: s)
  case Nil
  then show ?case by simp
next
  case (Cons b bs)
  obtain held m where mi: "map_index b (held_soft_locks s) = (held, m)"
    by (cases "map_index b (held_soft_locks s)")
  from map_index_flag [OF mi] Cons.IH show ?case
    by (auto simp: mi map_of_map_set)
qed

lemma unlocks_softly_step:
  "step align a s = Inr s' \<Longrightarrow> unlocks_softly (kind s') = unlocks_softly (kind s)"
  by (cases a; cases "kind s")
     (auto simp: method_defs split: option.splits if_splits sum.splits prod.splits)

lemma surfaces_step:
  "step align a s = Inr s' \<Longrightarrow> surfaces (view s') = tree_after (surfaces (view s)) a"
  by (cases a; cases "kind s")
     (auto simp: method_defs split: option.splits if_splits sum.splits prod.splits)

lemma soft_state_client_update:
  "soft_state p locked (client_update serial g s) = soft_state p locked s"
  by (simp add: soft_state_def soft_inv_def)

lemma soft_state_surface_commit:
  assumes "soft_state p locked s" and "surface_commit s = Inr s'"
  shows "soft_state p locked s'"
  using assms(2)
proof (cases rule: surface_commit_cases)
  case idle
  with assms(1) show ?thesis by simp
next
  case (achieved serial tlv)
  with assms(1) show ?thesis
    by (auto simp: soft_state_def soft_inv_def)
next
  case (waiting serial)
  with assms(1) show ?thesis
    by (auto simp: soft_state_def soft_inv_def)
qed


lemma soft_state_lock_tree:
  assumes "soft_state Staged locked s"
  shows "soft_state Requested (map fst (surfaces (view s)) @ locked) (lock_tree s)"
  using assms
  by (auto simp: soft_state_def soft_inv_def lock_tree_def flags_lock_tree_each
      soft_outstanding_locked simp del: map_map)

lemma soft_state_log_event:
  "(\<And>b. e \<noteq> Soft_lock b) \<Longrightarrow> (\<And>b. e \<noteq> Soft_unlock b)
     \<Longrightarrow> soft_state p locked (log_event e s) = soft_state p locked s"
  by (simp add: soft_state_def soft_inv_def)

lemma soft_state_other_events [simp]:
  "soft_state p locked (log_event Signal_ready s) = soft_state p locked s"
  "soft_state p locked (log_event (Signal_final_size d) s) = soft_state p locked s"
  "soft_state p locked (log_event (Send_frame surf) s) = soft_state p locked s"
  "soft_state p locked (log_event (Set_tiled e) s) = soft_state p locked s"
  "soft_state p locked (log_event (Set_maximized e) s) = soft_state p locked s"
  "soft_state p locked (log_event (Set_size w h) s) = soft_state p locked s"
  "soft_state p locked (log_event Damage s) = soft_state p locked s"
  "soft_state p locked (log_event (Update_tiled_edges e) s) = soft_state p locked s"
  "soft_state p locked (log_event (Map_view m) s) = soft_state p locked s"
  "soft_state p locked (log_event Unmap_view s) = soft_state p locked s"
  "soft_state p locked (log_event Signal_cancel s) = soft_state p locked s"
  by (simp_all add: soft_state_log_event)

lemma soft_state_untouched [simp]:
  "soft_state p locked (connect_on_commit serial s) = soft_state p locked s"
  "soft_state p locked (s\<lparr>on_commit := oc\<rparr>) = soft_state p locked s"
  "soft_state p locked (s\<lparr>kind := k\<rparr>) = soft_state p locked s"
  "soft_state p locked (upd_state f s) = soft_state p locked s"
  "soft_state p locked (upd_pending f s) = soft_state p locked s"
  "soft_state p locked (unlock_tree_wlr s) = soft_state p locked s"
  "soft_state p locked (lock_tree_wlr s) = soft_state p locked s"
  by (simp_all add: soft_state_def soft_inv_def connect_on_commit_def)

lemma soft_state_later:
  "soft_state Staged locked s \<Longrightarrow> soft_state Requested locked s"
  "soft_state p locked s \<Longrightarrow> soft_state Done locked s"
  by (simp_all add: soft_state_def)

lemma soft_state_commit:
  assumes "soft_state Staged locked s" and "commit s = Inr s'"
  shows "soft_state Requested
           (soft_locked_after (unlocks_softly (kind s)) (surfaces (view s)) locked Request) s'"
proof -
  note lt = soft_state_lock_tree [OF assms(1)]
  note st = soft_state_later(1) [OF assms(1)]
  show ?thesis
  proof (cases "kind s")
    case (State_t e)
    with assms(2) lt show ?thesis
      by (auto simp: commit_def xdg_view_state_commit_def emit_final_size_and_ready_def Let_def
          split: option.splits if_splits)
  next
    case (Geometry_t t cg ci)
    with assms(2) lt show ?thesis
      by (auto simp: commit_def xdg_view_geometry_commit_def emit_final_size_and_ready_def
          Let_def split: option.splits if_splits)
  next
    case (Gravity_t g)
    with assms(2) st show ?thesis
      by (auto simp: commit_def emit_final_size_and_ready_def split: option.splits)
  next
    case Map_t
    with assms(2) lt show ?thesis
      by (auto simp: commit_def emit_final_size_and_ready_def split: option.splits)
  next
    case Unmap_t
    with assms(2) st show ?thesis
      by (auto simp: commit_def)
  qed
qed

lemma soft_state_unlock_tree:
  assumes "soft_state p locked s"
  shows "soft_state Done (filter (\<lambda>b. b \<notin> fst ` set (surfaces (view s))) locked) (unlock_tree s)"
  using assms
  by (auto simp: soft_state_def soft_inv_def unlock_tree_def unlock_tree_each_flags
      unlock_tree_each_outstanding)


lemma soft_state_set_pending:
  assumes "soft_state Created locked s"
  shows "soft_state Staged locked (set_pending s)"
proof -
  from assms have "soft_state Staged locked s"
    by (simp add: soft_state_def)
  then show ?thesis
    by (cases "kind s") (simp_all add: set_pending_def)
qed

lemma soft_state_apply:
  assumes "soft_state Requested locked s" and "apply_instr align s = Inr s'"
  shows "soft_state Done
           (soft_locked_after (unlocks_softly (kind s)) (surfaces (view s)) locked Finalize) s'"
proof (cases "kind s")
  case (State_t e)
  with assms(2) soft_state_unlock_tree [OF assms(1)] show ?thesis
    by (auto simp: apply_instr_def xdg_view_state_apply_def Let_def)
next
  case (Geometry_t t cg ci)
  from assms(1) have "soft_state Requested locked (log_event Damage s)"
    by simp
  from soft_state_unlock_tree [OF this] have
    u: "soft_state Done (filter (\<lambda>b. b \<notin> fst ` set (surfaces (view s))) locked)
          (unlock_tree (log_event Damage s))"
    by simp
  let ?s0 = "unlock_tree (log_event Damage s)"
  from Geometry_t assms(2) obtain tlv g2
    where s': "s' = log_event Damage
        ((upd_state (\<lambda>p. p\<lparr>st_geometry := align t (expanded_geometry (view ?s0) tlv) cg\<rparr>) ?s0)
           \<lparr>kind := Geometry_t g2 cg ci,
            view := (view (upd_state (\<lambda>p. p\<lparr>st_geometry := align t (expanded_geometry (view ?s0) tlv) cg\<rparr>) ?s0))
               \<lparr>view_geometry := g2\<rparr>\<rparr>)"
    by (auto simp: apply_instr_def xdg_view_geometry_apply_def Let_def split: option.splits)
  have "soft_state Done (filter (\<lambda>b. b \<notin> fst ` set (surfaces (view s))) locked) s'"
    unfolding s' using u by (simp add: soft_state_def soft_inv_def)
  with Geometry_t show ?thesis by simp
next
  case (Gravity_t g)
  with assms show ?thesis
    by (auto simp: apply_instr_def soft_state_later)
next
  case Map_t
  from assms(1) have "soft_state Requested locked (upd_state (\<lambda>p. p\<lparr>mapped := True\<rparr>) s)"
    by simp
  from soft_state_unlock_tree [OF this] Map_t assms(2) show ?thesis
    by (auto simp: apply_instr_def Let_def)
next
  case Unmap_t
  with assms show ?thesis
    by (auto simp: apply_instr_def soft_state_later)
qed

lemma soft_state_step:
  assumes "allowed p a" and "soft_state p locked s" and "step align a s = Inr s'"
  shows "soft_state (next_phase p a)
           (soft_locked_after (unlocks_softly (kind s)) (surfaces (view s)) locked a) s'"
proof (cases a)
  case Stage
  with assms show ?thesis
    by (auto simp: step_def soft_state_set_pending)
next
  case Request
  with assms show ?thesis
    by (auto simp: step_def dest: soft_state_commit)
next
  case (Client_commit serial g)
  with assms show ?thesis
    by (auto simp: step_def soft_state_client_update dest: soft_state_surface_commit [rotated])
next
  case Finalize
  with assms show ?thesis
    by (auto simp: step_def dest: soft_state_apply)
next
  case Kill
  with assms show ?thesis
    by (auto simp: step_def on_kill_def soft_state_later)
next
  case Destroy
  with assms show ?thesis by simp
next
  case Toplevel_destroyed
  with assms show ?thesis
    by (auto simp: step_def soft_state_def soft_inv_def)
next
  case (Surfaces_changed ss)
  with assms show ?thesis
    by (auto simp: step_def soft_state_def soft_inv_def)
qed

lemma soft_state_run:
  "scheduled p acts \<Longrightarrow> soft_state p locked s \<Longrightarrow> run align acts s = Inr s'
     \<Longrightarrow> \<exists>p'. soft_state p'
           (soft_left (unlocks_softly (kind s)) (surfaces (view s)) locked acts) s'"
proof (induction acts arbitrary: p s locked)
  case Nil
  then show ?case by auto
next
  case (Cons a as)
  from Cons.prems(3) obtain s1 where s1: "step align a s = Inr s1" and r: "run align as s1 = Inr s'"
    by (auto split: sum.splits)
  from Cons.prems(1) have al: "allowed p a" and sc: "scheduled (next_phase p a) as"
    by (simp_all add: scheduled_Cons)
  note st = soft_state_step [OF al Cons.prems(2) s1]
  from Cons.IH [OF sc st r] unlocks_softly_step [OF s1] surfaces_step [OF s1]
  show ?case by simp
qed

lemma soft_state_construct:
  "distinct_surfaces v \<Longrightarrow> \<not> client_initiated_resize k
     \<Longrightarrow> soft_state Created [] (construct v k)"
  by (cases k)
     (auto simp: soft_state_def soft_inv_def construct_def xdg_instruction_def
        distinct_surfaces_def)

lemma surfaces_construct [simp]: "surfaces (view (construct v k)) = surfaces v"
  by (cases k) (auto simp: construct_def xdg_instruction_def)

lemma soft_left_at_destruction:
  assumes "distinct_surfaces v" and "\<not> client_initiated_resize k" and "scheduled Created acts"
    and "run align (acts @ [Destroy]) (construct v k) = Inr s'"
  shows "soft_outstanding (trace s') b =
           (if b \<in> set (soft_left (unlocks_softly k) (surfaces v) [] acts) then 1 else 0)"
proof -
  from assms(4) obtain s1 where r: "run align acts (construct v k) = Inr s1"
    and d: "s' = destroy s1"
    by (auto simp: run_append step_def split: sum.splits)
  from soft_state_run [OF assms(3) soft_state_construct [OF assms(1,2)] r]
  obtain p' where "soft_state p' (soft_left (unlocks_softly k) (surfaces v) [] acts) s1"
    by auto
  with d show ?thesis
    by (simp add: destroy_def soft_state_def soft_inv_def)
qed

lemma soft_left_append:
  "soft_left u tree locked (xs @ ys)
     = soft_left u (foldl tree_after tree xs) (soft_left u tree locked xs) ys"
  by (induction xs arbitrary: tree locked) simp_all

lemma soft_left_no_request:
  "Request \<notin> set acts \<Longrightarrow> set (soft_left u tree locked acts) \<subseteq> set locked"
proof (induction acts arbitrary: tree locked)
  case Nil
  then show ?case by simp
next
  case (Cons a as)
  from Cons.prems have "a \<noteq> Request" and "Request \<notin> set as" by auto
  from Cons.IH [OF this(2)] \<open>a \<noteq> Request\<close> show ?case
    by (cases a) (force split: if_splits)+
qed

lemma soft_left_empty:
  "Request \<notin> set acts \<Longrightarrow> soft_left u tree [] acts = []"
  using soft_left_no_request [of acts u tree "[]"] by simp

lemma scheduled_append:
  "scheduled p (xs @ ys) = (scheduled p xs \<and> scheduled (foldl next_phase p xs) ys)"
  by (induction xs arbitrary: p) (auto simp: scheduled_Cons)

lemma scheduled_after_request:
  "scheduled p acts \<Longrightarrow> p = Requested \<or> p = Done \<Longrightarrow>
     Request \<notin> set acts \<and> (foldl next_phase p acts = Requested \<or> foldl next_phase p acts = Done)"
proof (induction acts arbitrary: p)
  case Nil
  then show ?case by simp
next
  case (Cons a as)
  from Cons.prems have al: "allowed p a" and sc: "scheduled (next_phase p a) as"
    by (simp_all add: scheduled_Cons)
  from al Cons.prems(2) have "a \<noteq> Request" and "next_phase p a = Requested \<or> next_phase p a = Done"
    by (cases a; auto)+
  with Cons.IH [OF sc] show ?case by simp
qed

lemma scheduled_before_request:
  "scheduled p acts \<Longrightarrow> foldl next_phase p acts = Staged \<Longrightarrow> Request \<notin> set acts"
proof (induction acts arbitrary: p)
  case Nil
  then show ?case by simp
next
  case (Cons a as)
  from Cons.prems(1) have al: "allowed p a" and sc: "scheduled (next_phase p a) as"
    by (simp_all add: scheduled_Cons)
  show ?case
  proof (cases "a = Request")
    case True
    with sc scheduled_after_request [of Requested as] Cons.prems(2) show ?thesis
      by simp
  next
    case False
    with Cons.IH [OF sc] Cons.prems(2) show ?thesis by simp
  qed
qed

lemma soft_left_finalized:
  assumes "scheduled Created (pre @ Request # mid @ Finalize # post)"
    and "fst ` set (foldl tree_after tree pre) \<subseteq> fst ` set (foldl tree_after tree (pre @ mid))"
  shows "soft_left u tree [] (pre @ Request # mid @ Finalize # post) = []"
proof -
  let ?t1 = "foldl tree_after tree pre"
  let ?t2 = "foldl tree_after ?t1 mid"
  from assms(1) have sp: "scheduled Created pre"
    and sr: "scheduled (foldl next_phase Created pre) (Request # mid @ Finalize # post)"
    by (simp_all add: scheduled_append)
  from sr have st: "foldl next_phase Created pre = Staged"
    and sm: "scheduled Requested (mid @ Finalize # post)"
    by (simp_all add: scheduled_Cons)
  from scheduled_before_request [OF sp st] have np: "Request \<notin> set pre" .
  from scheduled_after_request [OF sm] have "Request \<notin> set (mid @ Finalize # post)"
    by simp
  then have nm: "Request \<notin> set mid" and no: "Request \<notin> set post"
    by simp_all
  show ?thesis
  proof (cases u)
    case True
    from soft_left_no_request [OF nm, of True ?t1 "map fst ?t1"]
    have "set (soft_left True ?t1 (map fst ?t1) mid) \<subseteq> fst ` set ?t1" by simp
    also from assms(2) have "\<dots> \<subseteq> fst ` set ?t2" by simp
    finally have "filter (\<lambda>b. b \<notin> fst ` set ?t2) (soft_left True ?t1 (map fst ?t1) mid) = []"
      by (auto simp: filter_empty_conv)
    with True show ?thesis
      by (simp add: soft_left_append soft_left_empty [OF np] soft_left_empty [OF no])
  next
    case False
    from soft_left_empty [OF nm, of False ?t1] False show ?thesis
      by (simp add: soft_left_append soft_left_empty [OF np] soft_left_empty [OF no])
  qed
qed

subsection \<open>The kill signal\<close>

lemma quiet_after_kill:
  "scheduled Done acts \<Longrightarrow> on_commit s = None \<Longrightarrow>
     \<exists>s'. run align acts s = Inr s' \<and> trace s' = trace s \<and> on_commit s' = None
        \<and> held_locks s' = held_locks s \<and> held_soft_locks s' = held_soft_locks s"
proof (induction acts arbitrary: s)
  case Nil
  then show ?case by simp
next
  case (Cons a as)
  from Cons.prems(1) have al: "allowed Done a" and sc: "scheduled Done as"
    by (cases a; simp)+
  from al Cons.prems(2) obtain s1 where s1: "step align a s = Inr s1"
    and same: "trace s1 = trace s" "on_commit s1 = None" "held_locks s1 = held_locks s"
      "held_soft_locks s1 = held_soft_locks s"
    by (cases a) (auto simp: step_def surface_commit_def)
  from Cons.IH [OF sc same(2)] same s1 show ?case
    by auto
qed

text \<open>
  Claim C2 says that the hook releases every lock the instruction holds. It releases none.
  A resize of the example window that has been staged and requested holds a soft lock on
  both surfaces; after the kill signal the trace has gained the cancel signal and no
  unlock, and both soft locks are still outstanding.
\<close>

theorem hook_releases_nothing:
  "\<exists>s1. run keep_target [Stage, Request, Kill]
       (construct example_view
          (Geometry_t \<lparr>box_x = 100, box_y = 100, box_w = 400, box_h = 300\<rparr> 0 False)) = Inr s1
     \<and> trace s1 = [Take_ref, Connect_kill, Soft_lock 1, Soft_lock 2, Set_size 400 270,
                    Send_frame 11, Signal_cancel]
     \<and> soft_outstanding (trace s1) 1 = 1
     \<and> soft_outstanding (trace s1) 2 = 1"
  by (simp add: run_defs example_defs Let_def)

text \<open>
  Claim C2, amended. The hook disconnects the \<open>on_commit\<close> listener and emits the cancel
  signal, once; it leaves \<open>held_locks\<close> and \<open>held_soft_locks\<close> as they are. Whatever the
  client and the surroundings do afterwards, the instruction emits nothing more (no ready
  in particular) until it is destroyed, and the destructor then releases the hard locks
  recorded in \<open>held_locks\<close>, each with its token. The soft locks are not touched.
\<close>

theorem cancellation_hook:
  assumes "scheduled Done acts"
  shows "trace (on_kill s) = trace s @ [Signal_cancel]
       \<and> on_commit (on_kill s) = None
       \<and> held_locks (on_kill s) = held_locks s
       \<and> held_soft_locks (on_kill s) = held_soft_locks s
       \<and> (\<exists>s'. run align (Kill # acts @ [Destroy]) s = Inr s'
            \<and> trace s' = trace s @ [Signal_cancel]
                 @ map (\<lambda>(surf, lock_id). Hard_unlock surf lock_id) (held_locks s) @ [Unref]
            \<and> on_commit s' = None
            \<and> held_locks s' = []
            \<and> held_soft_locks s' = held_soft_locks s)"
proof -
  have k: "on_commit (on_kill s) = None"
    by (simp add: on_kill_def)
  from quiet_after_kill [OF assms k, of align] obtain s1
    where r: "run align acts (on_kill s) = Inr s1" and t: "trace s1 = trace (on_kill s)"
      and o: "on_commit s1 = None" and h: "held_locks s1 = held_locks (on_kill s)"
      and f: "held_soft_locks s1 = held_soft_locks (on_kill s)"
    by blast
  have "run align (Kill # acts @ [Destroy]) s = Inr (destroy s1)"
    using r by (simp add: run_append step_def)
  with t o h f show ?thesis
    by (simp add: on_kill_def destroy_def)
qed

text \<open>
  The resize of the counterexample, killed while it waits for serial 7: a commit of the
  client that arrives later changes nothing. An unmap instruction killed after
  \<open>set_pending\<close>: the destructor releases its two hard locks.
\<close>

theorem cancellation_hook_witness:
  "scheduled Done [Client_commit 7 \<lparr>box_x = 0, box_y = 30, box_w = 400, box_h = 270\<rparr>]
   \<and> (\<exists>s1 s'. run keep_target [Stage, Request]
         (construct example_view
            (Geometry_t \<lparr>box_x = 100, box_y = 100, box_w = 400, box_h = 300\<rparr> 0 False)) = Inr s1
       \<and> on_commit s1 = Some 7
       \<and> run keep_target
            (Kill # [Client_commit 7 \<lparr>box_x = 0, box_y = 30, box_w = 400, box_h = 270\<rparr>]
               @ [Destroy]) s1 = Inr s'
       \<and> trace s' = [Take_ref, Connect_kill, Soft_lock 1, Soft_lock 2, Set_size 400 270,
                      Send_frame 11, Signal_cancel, Unref]
       \<and> on_commit s' = None)
   \<and> scheduled Done []
   \<and> (\<exists>s'. run keep_target (Kill # [] @ [Destroy])
               (set_pending (construct example_view Unmap_t)) = Inr s'
         \<and> trace s' = [Take_ref, Connect_kill, Hard_lock 11 111, Hard_lock 12 112,
                        Signal_cancel, Hard_unlock 11 111, Hard_unlock 12 112, Unref]
         \<and> held_locks s' = [])"
proof -
  have a: "scheduled Done [Client_commit 7 \<lparr>box_x = 0, box_y = 30, box_w = 400, box_h = 270\<rparr>]"
    and b: "scheduled Done []"
    by simp_all
  from cancellation_hook [OF a, of "set_pending (construct example_view Unmap_t)" keep_target]
       cancellation_hook [OF b, of "set_pending (construct example_view Unmap_t)" keep_target]
       a b
  show ?thesis
    by (simp add: run_defs example_defs Let_def)
qed

subsection \<open>No hard lock outlives its instruction\<close>

text \<open>
  Claim C1 says that no lock of either kind is outstanding when a completed instruction is
  destroyed. Two runs of a tiling request on the example window end otherwise. Cancelled
  while it waits for the acknowledgment, the instruction is destroyed with a soft lock
  outstanding on each surface: neither \<open>on_kill\<close> nor the destructor calls
  \<open>unlock_tree\<close>. Acknowledged and applied after the subsurface has left the tree, it is
  destroyed with the soft lock of the subsurface outstanding: \<open>unlock_tree\<close> visits the
  surfaces of the tree as it is when \<open>apply\<close> runs.
\<close>

theorem soft_locks_left_at_destruction:
  "(\<exists>s'. run keep_target [Stage, Request, Kill, Destroy]
        (construct example_view (State_t 15)) = Inr s'
     \<and> trace s' = [Take_ref, Connect_kill, Soft_lock 1, Soft_lock 2, Set_maximized 15,
                    Set_tiled 15, Send_frame 11, Signal_cancel, Unref]
     \<and> soft_outstanding (trace s') 1 = 1
     \<and> soft_outstanding (trace s') 2 = 1)
   \<and> (\<exists>s'. run keep_target
        [Stage, Request, Surfaces_changed [(1, 11)],
         Client_commit 7 \<lparr>box_x = 0, box_y = 30, box_w = 800, box_h = 570\<rparr>, Finalize, Destroy]
        (construct example_view (State_t 15)) = Inr s'
     \<and> trace s' = [Take_ref, Connect_kill, Soft_lock 1, Soft_lock 2, Set_maximized 15,
                    Set_tiled 15, Send_frame 11, Hard_lock 11 111, Signal_final_size (800, 600),
                    Signal_ready, Soft_unlock 1, Update_tiled_edges 0, Hard_unlock 11 111, Unref]
     \<and> soft_outstanding (trace s') 1 = 0
     \<and> soft_outstanding (trace s') 2 = 1)"
  by (simp add: run_defs example_defs Let_def)

text \<open>
  Claim C1, amended. Take any class of instruction on a window whose tree enumerates no
  surface twice, and any run the scheduler allows, followed by destruction. No hard lock
  is outstanding afterwards: every \<open>wlr_surface_lock_pending\<close> has its
  \<open>wlr_surface_unlock_cached\<close> with the same token. For an instruction that is not a
  client-initiated resize, a soft lock is outstanding afterwards exactly on the surfaces
  \<open>soft_left\<close> gives: those that \<open>commit\<close> locked and that were not in the tree when
  \<open>apply\<close> ran, all of them when \<open>apply\<close> never ran. So no soft lock is outstanding when
  \<open>commit\<close> never ran, and none when \<open>apply\<close> ran with every surface that was in the tree
  at \<open>commit\<close> still in the tree.
\<close>

theorem locks_released_by_destruction:
  assumes "distinct_surfaces v"
  shows "(\<forall>acts s'. scheduled Created acts \<longrightarrow>
            run align (acts @ [Destroy]) (construct v k) = Inr s' \<longrightarrow>
            (\<forall>surf tok. hard_outstanding (trace s') surf tok = 0))
       \<and> (\<forall>acts s'. \<not> client_initiated_resize k \<longrightarrow> scheduled Created acts \<longrightarrow>
            run align (acts @ [Destroy]) (construct v k) = Inr s' \<longrightarrow>
            (\<forall>b. soft_outstanding (trace s') b =
                   (if b \<in> set (soft_left (unlocks_softly k) (surfaces v) [] acts)
                    then 1 else 0)))
       \<and> (\<forall>acts s'. \<not> client_initiated_resize k \<longrightarrow> scheduled Created acts \<longrightarrow>
            Request \<notin> set acts \<longrightarrow>
            run align (acts @ [Destroy]) (construct v k) = Inr s' \<longrightarrow>
            (\<forall>b. soft_outstanding (trace s') b = 0))
       \<and> (\<forall>pre mid post s'. \<not> client_initiated_resize k \<longrightarrow>
            scheduled Created (pre @ Request # mid @ Finalize # post) \<longrightarrow>
            fst ` set (foldl tree_after (surfaces v) pre)
              \<subseteq> fst ` set (foldl tree_after (surfaces v) (pre @ mid)) \<longrightarrow>
            run align ((pre @ Request # mid @ Finalize # post) @ [Destroy]) (construct v k)
              = Inr s' \<longrightarrow>
            (\<forall>b. soft_outstanding (trace s') b = 0))"
proof (intro conjI allI impI)
  fix acts s' surf tok
  assume "scheduled Created acts" and "run align (acts @ [Destroy]) (construct v k) = Inr s'"
  with assms show "hard_outstanding (trace s') surf tok = 0"
    by (rule hard_released_at_destruction)
next
  fix acts s' b
  assume "\<not> client_initiated_resize k" and "scheduled Created acts"
    and "run align (acts @ [Destroy]) (construct v k) = Inr s'"
  with assms show "soft_outstanding (trace s') b =
      (if b \<in> set (soft_left (unlocks_softly k) (surfaces v) [] acts) then 1 else 0)"
    by (rule soft_left_at_destruction)
next
  fix acts s' b
  assume c: "\<not> client_initiated_resize k" and sc: "scheduled Created acts"
    and nr: "Request \<notin> set acts"
    and r: "run align (acts @ [Destroy]) (construct v k) = Inr s'"
  from soft_left_at_destruction [OF assms c sc r, of b] soft_left_empty [OF nr]
  show "soft_outstanding (trace s') b = 0"
    by simp
next
  fix pre mid post s' b
  assume c: "\<not> client_initiated_resize k"
    and sc: "scheduled Created (pre @ Request # mid @ Finalize # post)"
    and cover: "fst ` set (foldl tree_after (surfaces v) pre)
              \<subseteq> fst ` set (foldl tree_after (surfaces v) (pre @ mid))"
    and r: "run align ((pre @ Request # mid @ Finalize # post) @ [Destroy]) (construct v k)
              = Inr s'"
  from soft_left_at_destruction [OF assms c sc r, of b] soft_left_finalized [OF sc cover]
  show "soft_outstanding (trace s') b = 0"
    by simp
qed

text \<open>
  A tiling request on the example window. Applied after the subsurface has left the tree,
  it is destroyed with no hard lock and exactly the soft lock of the subsurface
  outstanding. An unmap instruction killed after \<open>set_pending\<close> is destroyed with its hard
  locks released. Applied after the protocol object has gone and the tree has grown, the
  tiling request is destroyed with both its soft locks released.
\<close>

theorem locks_released_by_destruction_witness:
  "distinct_surfaces example_view
   \<and> scheduled Created
       [Stage, Request, Surfaces_changed [(1, 11)],
        Client_commit 7 \<lparr>box_x = 0, box_y = 30, box_w = 800, box_h = 570\<rparr>, Finalize]
   \<and> (\<exists>s1. run keep_target
         ([Stage, Request, Surfaces_changed [(1, 11)],
           Client_commit 7 \<lparr>box_x = 0, box_y = 30, box_w = 800, box_h = 570\<rparr>, Finalize]
          @ [Destroy])
         (construct example_view (State_t 15)) = Inr s1
       \<and> Hard_lock 11 111 \<in> set (trace s1)
       \<and> (\<forall>surf tok. hard_outstanding (trace s1) surf tok = 0)
       \<and> (\<forall>b. soft_outstanding (trace s1) b = (if b = 2 then 1 else 0)))
   \<and> scheduled Created [Stage, Kill]
   \<and> Request \<notin> set [Stage, Kill]
   \<and> (\<exists>s2. run keep_target ([Stage, Kill] @ [Destroy]) (construct example_view Unmap_t) = Inr s2
       \<and> Hard_lock 11 111 \<in> set (trace s2)
       \<and> (\<forall>surf tok. hard_outstanding (trace s2) surf tok = 0)
       \<and> (\<forall>b. soft_outstanding (trace s2) b = 0))
   \<and> scheduled Created
       ([Stage] @ Request #
        [Toplevel_destroyed, Surfaces_changed [(1, 11), (2, 12), (3, 13)]] @ Finalize # [])
   \<and> fst ` set (foldl tree_after (surfaces example_view) [Stage])
       \<subseteq> fst ` set (foldl tree_after (surfaces example_view)
           ([Stage] @ [Toplevel_destroyed, Surfaces_changed [(1, 11), (2, 12), (3, 13)]]))
   \<and> (\<exists>s3. run keep_target
         (([Stage] @ Request #
           [Toplevel_destroyed, Surfaces_changed [(1, 11), (2, 12), (3, 13)]] @ Finalize # [])
          @ [Destroy])
         (construct example_view (State_t 15)) = Inr s3
       \<and> Soft_lock 1 \<in> set (trace s3)
       \<and> Soft_lock 2 \<in> set (trace s3)
       \<and> (\<forall>b. soft_outstanding (trace s3) b = 0))"
proof -
  let ?B = "\<lparr>box_x = 0, box_y = 30, box_w = 800, box_h = 570\<rparr>"
  let ?A = "[Stage, Request, Surfaces_changed [(1, 11)], Client_commit 7 ?B, Finalize]"
  let ?mid = "[Toplevel_destroyed, Surfaces_changed [(1, 11), (2, 12), (3, 13)]]"
  have d: "distinct_surfaces example_view"
    by (simp add: distinct_surfaces_def example_view_def)
  have sc1: "scheduled Created ?A"
    and sc2: "scheduled Created [Stage, Kill]"
    and nr: "Request \<notin> set [Stage, Kill]"
    and sc3: "scheduled Created ([Stage] @ Request # ?mid @ Finalize # [])"
    by simp_all
  have cover: "fst ` set (foldl tree_after (surfaces example_view) [Stage])
       \<subseteq> fst ` set (foldl tree_after (surfaces example_view) ([Stage] @ ?mid))"
    by (simp add: example_view_def)
  have n1: "\<not> client_initiated_resize (State_t 15)"
    and n2: "\<not> client_initiated_resize Unmap_t"
    by simp_all
  have "\<exists>s1. run keep_target (?A @ [Destroy]) (construct example_view (State_t 15)) = Inr s1
       \<and> Hard_lock 11 111 \<in> set (trace s1)"
    by (simp add: run_defs example_defs Let_def)
  then obtain s1
    where r1: "run keep_target (?A @ [Destroy]) (construct example_view (State_t 15)) = Inr s1"
      and m1: "Hard_lock 11 111 \<in> set (trace s1)"
    by blast
  have "\<exists>s2. run keep_target ([Stage, Kill] @ [Destroy]) (construct example_view Unmap_t) = Inr s2
       \<and> Hard_lock 11 111 \<in> set (trace s2)"
    by (simp add: run_defs example_defs Let_def)
  then obtain s2
    where r2: "run keep_target ([Stage, Kill] @ [Destroy]) (construct example_view Unmap_t)
                = Inr s2"
      and m2: "Hard_lock 11 111 \<in> set (trace s2)"
    by blast
  have "\<exists>s3. run keep_target (([Stage] @ Request # ?mid @ Finalize # []) @ [Destroy])
         (construct example_view (State_t 15)) = Inr s3
       \<and> Soft_lock 1 \<in> set (trace s3) \<and> Soft_lock 2 \<in> set (trace s3)"
    by (simp add: run_defs example_defs Let_def)
  then obtain s3
    where r3: "run keep_target (([Stage] @ Request # ?mid @ Finalize # []) @ [Destroy])
         (construct example_view (State_t 15)) = Inr s3"
      and m3: "Soft_lock 1 \<in> set (trace s3)" "Soft_lock 2 \<in> set (trace s3)"
    by blast
  note T1 = locks_released_by_destruction [OF d, of keep_target "State_t 15"]
  note T2 = locks_released_by_destruction [OF d, of keep_target Unmap_t]
  from T1 sc1 r1 have h1: "\<forall>surf tok. hard_outstanding (trace s1) surf tok = 0"
    by blast
  from T1 n1 sc1 r1
  have "\<forall>b. soft_outstanding (trace s1) b =
      (if b \<in> set (soft_left (unlocks_softly (State_t 15)) (surfaces example_view) [] ?A)
       then 1 else 0)"
    by blast
  then have f1: "\<forall>b. soft_outstanding (trace s1) b = (if b = 2 then 1 else 0)"
    by (simp add: example_view_def)
  from T2 sc2 r2 have h2: "\<forall>surf tok. hard_outstanding (trace s2) surf tok = 0"
    by blast
  from T2 n2 sc2 nr r2 have f2: "\<forall>b. soft_outstanding (trace s2) b = 0"
    by blast
  from T1 n1 sc3 cover r3 have f3: "\<forall>b. soft_outstanding (trace s3) b = 0"
    by blast
  from d sc1 r1 m1 h1 f1 sc2 nr r2 m2 h2 f2 sc3 cover r3 m3 f3 show ?thesis
    by blast
qed

end
